theory Spec2Isabelle
  imports Main "HOL-Library.Word" "HOL-Library.Sublist" "HOL-Library.Code_Target_Nat"
begin

section \<open>The GitHub Copilot CLI adapter (core/llm\_github\_copilot.go)\<close>

text \<open>
  Go strings are byte sequences; they are modelled as \<open>string\<close>, a list of 8-bit
  characters. \<open>int64\<close> is \<open>64 word\<close>, read as two's complement by \<open>sint\<close>.
\<close>

type_synonym int64 = "64 word"

subsection \<open>Model name normalisation\<close>

text \<open>\<open>strings.HasPrefix(s, prefix)\<close>: \<open>len(s) >= len(prefix) && s[:len(prefix)] == prefix\<close>.\<close>

definition HasPrefix :: "string \<Rightarrow> string \<Rightarrow> bool" where
  "HasPrefix s pre = (length pre \<le> length s \<and> take (length pre) s = pre)"

text \<open>\<open>strings.TrimPrefix(s, prefix)\<close>: \<open>s[len(prefix):]\<close> when \<open>s\<close> has the prefix, else \<open>s\<close>.\<close>

definition TrimPrefix :: "string \<Rightarrow> string \<Rightarrow> string" where
  "TrimPrefix s pre = (if HasPrefix s pre then drop (length pre) s else s)"

definition gitHubModelPrefixes :: "string list" where
  "gitHubModelPrefixes =
     [''github-'', ''github/'', ''gh-'', ''gh/'', ''ghcp-'', ''ghcp/'']"

text \<open>The \<open>for _, prefix := range ...\<close> loop of \<open>StripGitHubModelPrefix\<close>, over the
  prefixes still to be tried; falling out of the loop returns the model unchanged.\<close>

fun StripLoop :: "string list \<Rightarrow> string \<Rightarrow> string" where
  "StripLoop [] model = model"
| "StripLoop (pre # rest) model =
     (if HasPrefix model pre then TrimPrefix model pre else StripLoop rest model)"

definition StripGitHubModelPrefix :: "string \<Rightarrow> string" where
  "StripGitHubModelPrefix model = StripLoop gitHubModelPrefixes model"

text \<open>The normaliser as the specification words it: find the first prefix of the list
  that is a literal prefix of the identifier and remove exactly that prefix; without one,
  return the identifier unchanged.\<close>

definition strip_first_prefix_spec :: "string list \<Rightarrow> string \<Rightarrow> string" where
  "strip_first_prefix_spec ps model =
     (case find (\<lambda>p. prefix p model) ps of
        None \<Rightarrow> model
      | Some p \<Rightarrow> drop (length p) model)"

subsection \<open>Errors\<close>

text \<open>
  The errors \<open>SendQuery\<close> can return, and the one run-time panic its code can raise.
  \<open>EmptyHistory\<close> is \<open>fmt.Errorf("prompt/chat history cannot be empty - run with-prompt
  to add a prompt/message")\<close>, \<open>LastNotUser\<close> is \<open>fmt.Errorf("the last message in
  history must be from the user")\<close>; these two are the validation errors.
  \<open>Wrapped msg err\<close> is \<open>fmt.Errorf(msg + ": %w", err)\<close>. \<open>External\<close> is an error
  value handed back by a collaborator (the meter, the container), given by its message;
  \<open>IndexOutOfRange\<close> is the panic of an indexing expression.
\<close>

datatype error =
    EmptyHistory
  | LastNotUser
  | Wrapped string error
  | External string
  | IndexOutOfRange

definition is_validation_error :: "error \<Rightarrow> bool" where
  "is_validation_error e = (e = EmptyHistory \<or> e = LastNotUser)"

text \<open>An indexing expression \<open>xs[i]\<close>: the element, or the panic.\<close>

definition index :: "'a list \<Rightarrow> nat \<Rightarrow> error + 'a" where
  "index xs i = (if i < length xs then Inr (xs ! i) else Inl IndexOutOfRange)"

subsection \<open>Regular expressions (package regexp)\<close>

text \<open>
  The two patterns of the sources use literals, the classes \<open>\d\<close> and \<open>\s\<close> under
  \<open>+\<close> and \<open>*\<close>, the greedy \<open>?\<close>, concatenation, and capturing groups; \<open>re\<close> has
  exactly these. In Go's syntax \<open>\d\<close> is \<open>[0-9]\<close> and \<open>\s\<close> is \<open>[\t\n\f\r ]\<close>.
  No element of either pattern matches a byte above 127, so matching bytes and matching
  UTF-8 code points agree on them.
\<close>

datatype cls = Digit | Space

fun in_cls :: "cls \<Rightarrow> char \<Rightarrow> bool" where
  "in_cls Digit c = (c \<in> set ''0123456789'')"
| "in_cls Space c = (c \<in> set [CHR 0x09, CHR 0x0A, CHR 0x0C, CHR 0x0D, CHR 0x20])"

datatype re =
    Lit string
  | Plus cls
  | Star cls
  | Opt re
  | Seq re re
  | Group nat re

type_synonym mstate = "string \<times> (nat \<rightharpoonup> string)"

text \<open>
  \<open>runs r (s, c)\<close> lists every way \<open>r\<close> matches a prefix of \<open>s\<close>, in the order in
  which a backtracking search finds them: each entry is the input left over and the
  captures, starting from the captures \<open>c\<close>. Greedy operators try the longest
  repetition first, and \<open>?\<close> tries its operand before the empty match. Package regexp
  returns the leftmost match, and among those at the same start the one a backtracking
  search finds first, which is the head of this list.
\<close>

primrec runs :: "re \<Rightarrow> mstate \<Rightarrow> mstate list" where
  "runs (Lit w) st =
     (if prefix w (fst st) then [(drop (length w) (fst st), snd st)] else [])"
| "runs (Plus cl) st =
     map (\<lambda>k. (drop k (fst st), snd st))
       (rev [1 ..< Suc (length (takeWhile (in_cls cl) (fst st)))])"
| "runs (Star cl) st =
     map (\<lambda>k. (drop k (fst st), snd st))
       (rev [0 ..< Suc (length (takeWhile (in_cls cl) (fst st)))])"
| "runs (Opt r) st = runs r st @ [st]"
| "runs (Seq r1 r2) st = concat (map (runs r2) (runs r1 st))"
| "runs (Group i r) st =
     map (\<lambda>st'. (fst st', (snd st')(i \<mapsto> take (length (fst st) - length (fst st')) (fst st))))
       (runs r st)"

text \<open>\<open>NumSubexp\<close>: the number of capturing groups (they are numbered from 1).\<close>

primrec NumSubexp :: "re \<Rightarrow> nat" where
  "NumSubexp (Lit w) = 0"
| "NumSubexp (Plus cl) = 0"
| "NumSubexp (Star cl) = 0"
| "NumSubexp (Opt r) = NumSubexp r"
| "NumSubexp (Seq r1 r2) = NumSubexp r1 + NumSubexp r2"
| "NumSubexp (Group i r) = Suc (NumSubexp r)"

text \<open>The match starting at the head of \<open>s\<close>, if any: the matched text and the captures.\<close>

definition match_here :: "re \<Rightarrow> string \<Rightarrow> (string \<times> (nat \<rightharpoonup> string)) option" where
  "match_here r s =
     (case runs r (s, Map.empty) of
        [] \<Rightarrow> None
      | st # _ \<Rightarrow> Some (take (length s - length (fst st)) s, snd st))"

text \<open>The leftmost match: every start position in turn, the end of the text included.\<close>

fun leftmost :: "re \<Rightarrow> string \<Rightarrow> (string \<times> (nat \<rightharpoonup> string)) option" where
  "leftmost r [] = match_here r []"
| "leftmost r (x # s) =
     (case match_here r (x # s) of
        Some m \<Rightarrow> Some m
      | None \<Rightarrow> leftmost r s)"

text \<open>Where the leftmost match starts (\<open>loc[0]\<close> of \<open>FindStringIndex\<close>).\<close>

fun match_offset :: "re \<Rightarrow> string \<Rightarrow> nat option" where
  "match_offset r [] = (if match_here r [] = None then None else Some 0)"
| "match_offset r (x # s) =
     (if match_here r (x # s) = None then map_option Suc (match_offset r s) else Some 0)"

text \<open>The text of group \<open>i\<close> as a submatch: the empty string for a group that took
  no part in the match.\<close>

definition cap :: "(nat \<rightharpoonup> string) \<Rightarrow> nat \<Rightarrow> string" where
  "cap c i = (case c i of None \<Rightarrow> [] | Some g \<Rightarrow> g)"

text \<open>
  \<open>FindStringSubmatch\<close>: \<open>nil\<close> (the empty list) without a match; otherwise the matched
  text followed by the text of each group.
\<close>

definition FindStringSubmatch :: "re \<Rightarrow> string \<Rightarrow> string list" where
  "FindStringSubmatch r s =
     (case leftmost r s of
        None \<Rightarrow> []
      | Some (whole, c) \<Rightarrow> whole # map (cap c) [1 ..< Suc (NumSubexp r)])"

text \<open>
  The words an expression matches, independently of any search order, and what it means
  for a pattern to be found somewhere in a text.
\<close>

primrec lang :: "re \<Rightarrow> string set" where
  "lang (Lit w) = {w}"
| "lang (Plus cl) = {w. w \<noteq> [] \<and> list_all (in_cls cl) w}"
| "lang (Star cl) = {w. list_all (in_cls cl) w}"
| "lang (Opt r) = insert [] (lang r)"
| "lang (Seq r1 r2) = {u @ v | u v. u \<in> lang r1 \<and> v \<in> lang r2}"
| "lang (Group i r) = lang r"

definition found :: "re \<Rightarrow> string \<Rightarrow> bool" where
  "found r s = (\<exists>pre u post. s = pre @ u @ post \<and> u \<in> lang r)"

text \<open>The characters the words of an expression are made of.\<close>

primrec alphabet :: "re \<Rightarrow> char set" where
  "alphabet (Lit w) = set w"
| "alphabet (Plus cl) = {c. in_cls cl c}"
| "alphabet (Star cl) = {c. in_cls cl c}"
| "alphabet (Opt r) = alphabet r"
| "alphabet (Seq r1 r2) = alphabet r1 \<union> alphabet r2"
| "alphabet (Group i r) = alphabet r"

text \<open>The numbers of the groups of an expression.\<close>

primrec groups :: "re \<Rightarrow> nat set" where
  "groups (Lit w) = {}"
| "groups (Plus cl) = {}"
| "groups (Star cl) = {}"
| "groups (Opt r) = groups r"
| "groups (Seq r1 r2) = groups r1 \<union> groups r2"
| "groups (Group i r) = insert i (groups r)"

text \<open>What follows the part of the input a run consumes does not influence the run.\<close>

definition lift :: "string \<Rightarrow> mstate \<Rightarrow> mstate" where
  "lift z st = (fst st @ z, snd st)"

definition within :: "string \<Rightarrow> mstate \<Rightarrow> bool" where
  "within z st = (length z \<le> length (fst st))"

text \<open>Concatenation of a sequence of expressions.\<close>

definition cat :: "re list \<Rightarrow> re" where
  "cat rs = foldr Seq rs (Lit [])"

text \<open>\<open>\d+(?:\.\d+)?\<close>\<close>

definition number :: re where
  "number = Seq (Plus Digit) (Opt (Seq (Lit ''.'') (Plus Digit)))"

text \<open>\<open>(\d+(?:\.\d+)?)(k?)\s+\<close> followed by the literal \<open>w\<close>, the groups numbered
  \<open>i\<close> and \<open>i + 1\<close>.\<close>

definition counter :: "nat \<Rightarrow> string \<Rightarrow> re" where
  "counter i w = cat [Group i number, Group (Suc i) (Opt (Lit ''k'')), Plus Space, Lit w]"

text \<open>\<open>(\d+(?:\.\d+)?)(k?)\s+input,\s*(\d+(?:\.\d+)?)(k?)\s+output,\s*(\d+(?:\.\d+)?)(k?)\s+cache read\<close>,
  the part the two revisions' patterns share.\<close>

definition usage_head :: re where
  "usage_head =
     cat [counter 1 ''input,'', Star Space, counter 3 ''output,'', Star Space,
          counter 5 ''cache read'']"

text \<open>\<open>,\s*(\d+(?:\.\d+)?)(k?)\s+cache write\<close>\<close>

definition cache_write_clause :: re where
  "cache_write_clause = cat [Lit '','', Star Space, counter 7 ''cache write'']"

text \<open>The pattern of \<open>parseCopilotTokenMetadata\<close>: the clause is optional, \<open>(?: ... )?\<close>.\<close>

definition usage_re :: re where
  "usage_re = Seq usage_head (Opt cache_write_clause)"

text \<open>The pattern of the earlier revision's \<open>parseLLMTokenUsage\<close>: the clause is required.\<close>

definition usage_re_old :: re where
  "usage_re_old = Seq usage_head cache_write_clause"

subsection \<open>Floating point (float64)\<close>

text \<open>
  The values \<open>parseTokenValue\<close> computes with are never negative and never NaN: a
  float64 is here a finite value \<open>Finite p q\<close>, the fraction \<open>p / q\<close> with \<open>q\<close> a
  power of two, or \<open>PosInf\<close>.
\<close>

datatype float64 = Finite nat nat | PosInf

text \<open>\<open>bits.Len\<close>: the number of bits of \<open>n\<close>.\<close>

fun bit_length :: "nat \<Rightarrow> nat" where
  "bit_length n = (if n = 0 then 0 else Suc (bit_length (n div 2)))"

declare bit_length.simps [simp del]

text \<open>\<open>p / q\<close> rounded to the nearest integer, a tie to the even one.\<close>

definition round_half_even :: "nat \<Rightarrow> nat \<Rightarrow> nat" where
  "round_half_even p q =
     (let a = p div q; r = p mod q
      in if 2 * r < q then a
         else if q < 2 * r then Suc a
         else if even a then a else Suc a)"

text \<open>The integer part of the binary logarithm of \<open>p / q\<close>, for positive \<open>p\<close> and \<open>q\<close>.\<close>

definition ilog2 :: "nat \<Rightarrow> nat \<Rightarrow> int" where
  "ilog2 p q =
     (let k = int (bit_length p) - int (bit_length q)
      in if 0 \<le> k then (if q * 2 ^ nat k \<le> p then k else k - 1)
         else (if q \<le> p * 2 ^ nat (- k) then k else k - 1))"

text \<open>
  IEEE 754 binary64 rounding, to nearest and ties to even, of the non-negative fraction
  \<open>p / q\<close>: 53 significant bits, the least exponent of a unit in the last place
  \<open>-1074\<close>, and infinity from \<open>2 ^ 1024\<close> on.
\<close>

definition round_f64 :: "nat \<Rightarrow> nat \<Rightarrow> float64" where
  "round_f64 p q =
     (if p = 0 then Finite 0 1
      else
        let e = max (ilog2 p q - 52) (- 1074)
        in if 0 \<le> e then
             (let m = round_half_even p (q * 2 ^ nat e)
              in if 2 ^ 1024 \<le> m * 2 ^ nat e then PosInf else Finite (m * 2 ^ nat e) 1)
           else Finite (round_half_even (p * 2 ^ nat (- e)) q) (2 ^ nat (- e)))"

text \<open>The value of a string of decimal digits.\<close>

definition digit_val :: "char \<Rightarrow> nat" where
  "digit_val c = of_char c - 48"

definition decimal :: "string \<Rightarrow> nat" where
  "decimal ds = foldl (\<lambda>n c. 10 * n + digit_val c) 0 ds"

definition all_digits :: "string \<Rightarrow> bool" where
  "all_digits ds = (ds \<noteq> [] \<and> list_all (in_cls Digit) ds)"

text \<open>
  \<open>strconv.ParseFloat(s, 64)\<close> on the strings \<open>parseTokenValue\<close> is called with: the
  text of a group \<open>\d+(?:\.\d+)?\<close>, or the empty string of a group that took no part.
  \<open>None\<close> is a non-nil \<open>err\<close>: a syntax error, or a range error for a value that rounds
  to infinity. The result is correctly rounded. Other spellings ParseFloat accepts
  (signs, exponents, hexadecimal, \<open>inf\<close>, a missing integer or fraction part as in
  \<open>.5\<close> and \<open>5.\<close>) never reach it here and are not modelled: they are \<open>None\<close>
  too.
\<close>

definition ParseFloat :: "string \<Rightarrow> float64 option" where
  "ParseFloat s =
     (let ip = takeWhile (\<lambda>c. c \<noteq> CHR ''.'') s;
          fp = drop (Suc (length ip)) s
      in if all_digits ip \<and> (length ip = length s \<or> all_digits fp) then
           (case round_f64 (decimal (ip @ fp)) (10 ^ length fp) of
              PosInf \<Rightarrow> None
            | Finite p q \<Rightarrow> Some (Finite p q))
         else None)"

text \<open>\<open>inputVal *= 1000\<close>: the exact product, rounded.\<close>

fun times1000 :: "float64 \<Rightarrow> float64" where
  "times1000 (Finite p q) = round_f64 (p * 1000) q"
| "times1000 PosInf = PosInf"

text \<open>
  \<open>int64(inputVal)\<close>: the fraction is discarded. When the integer part does not fit
  int64 the language leaves the result to the implementation; \<open>conv\<close> is what the
  implementation at hand returns then.
\<close>

fun to_int64 :: "(float64 \<Rightarrow> int64) \<Rightarrow> float64 \<Rightarrow> int64" where
  "to_int64 conv (Finite p q) =
     (if p div q < 2 ^ 63 then word_of_nat (p div q) else conv (Finite p q))"
| "to_int64 conv PosInf = conv PosInf"


text \<open>What amd64 returns out of range: the least int64.\<close>

definition conv_amd64 :: "float64 \<Rightarrow> int64" where
  "conv_amd64 f = - (2 ^ 63)"

text \<open>\<open>strings.ToLower\<close> on ASCII text.\<close>

definition ToLower :: "string \<Rightarrow> string" where
  "ToLower s =
     map (\<lambda>c. case map_of (zip ''ABCDEFGHIJKLMNOPQRSTUVWXYZ'' ''abcdefghijklmnopqrstuvwxyz'') c of
                 None \<Rightarrow> c
               | Some l \<Rightarrow> l) s"

subsection \<open>Token usage\<close>

text \<open>Modelled from the spec: the struct \<open>LLMTokenUsage\<close> is declared outside the
  sources at hand; its five counters are the int64 fields the code assigns, all zero in
  a fresh value.\<close>

record LLMTokenUsage =
  InputTokens :: int64
  OutputTokens :: int64
  CachedTokenReads :: int64
  CachedTokenWrites :: int64
  TotalTokens :: int64

definition zero_usage :: LLMTokenUsage where
  "zero_usage =
     \<lparr>InputTokens = 0, OutputTokens = 0, CachedTokenReads = 0, CachedTokenWrites = 0,
      TotalTokens = 0\<rparr>"

definition parseTokenValue :: "(float64 \<Rightarrow> int64) \<Rightarrow> string \<Rightarrow> string \<Rightarrow> int64" where
  "parseTokenValue conv valueStr multiplierStr =
     (case ParseFloat valueStr of
        Some inputVal \<Rightarrow>
          to_int64 conv (if ToLower multiplierStr = ''k'' then times1000 inputVal else inputVal)
      | None \<Rightarrow> 0)"


text \<open>Each \<open>matches[i]\<close> is an indexing expression; the first one out of range panics.\<close>

definition parseCopilotTokenMetadata ::
  "(float64 \<Rightarrow> int64) \<Rightarrow> string \<Rightarrow> error + LLMTokenUsage" where
  "parseCopilotTokenMetadata conv copilotclimetadata =
     (let matches = FindStringSubmatch usage_re copilotclimetadata
      in if 7 < length matches then
           (case (index matches 1, index matches 2, index matches 3, index matches 4,
                  index matches 5, index matches 6, index matches 7, index matches 8) of
              (Inr m1, Inr m2, Inr m3, Inr m4, Inr m5, Inr m6, Inr m7, Inr m8) \<Rightarrow>
                (let tokenUsage = zero_usage
                       \<lparr>InputTokens := parseTokenValue conv m1 m2,
                        OutputTokens := parseTokenValue conv m3 m4,
                        CachedTokenReads := parseTokenValue conv m5 m6,
                        CachedTokenWrites := parseTokenValue conv m7 m8\<rparr>
                 in Inr (tokenUsage
                       \<lparr>TotalTokens := InputTokens tokenUsage + OutputTokens tokenUsage\<rparr>))
            | _ \<Rightarrow> Inl IndexOutOfRange)
         else Inr zero_usage)"

text \<open>
  The earlier revision's parser. Each counter is set only when \<open>ParseFloat\<close> succeeds
  and stays zero otherwise.
\<close>

definition old_counter :: "(float64 \<Rightarrow> int64) \<Rightarrow> string \<Rightarrow> string \<Rightarrow> int64 \<Rightarrow> int64" where
  "old_counter conv valueStr multiplierStr field =
     (case ParseFloat valueStr of
        Some v \<Rightarrow> to_int64 conv (if ToLower multiplierStr = ''k'' then times1000 v else v)
      | None \<Rightarrow> field)"

definition parseLLMTokenUsage :: "(float64 \<Rightarrow> int64) \<Rightarrow> string \<Rightarrow> error + LLMTokenUsage" where
  "parseLLMTokenUsage conv output =
     (let matches = FindStringSubmatch usage_re_old output
      in if 7 \<le> length matches then
           (case (index matches 1, index matches 2, index matches 3, index matches 4,
                  index matches 5, index matches 6, index matches 7, index matches 8) of
              (Inr m1, Inr m2, Inr m3, Inr m4, Inr m5, Inr m6, Inr m7, Inr m8) \<Rightarrow>
                (let tokenUsage = zero_usage
                       \<lparr>InputTokens := old_counter conv m1 m2 0,
                        OutputTokens := old_counter conv m3 m4 0,
                        CachedTokenReads := old_counter conv m5 m6 0,
                        CachedTokenWrites := old_counter conv m7 m8 0\<rparr>
                 in Inr (tokenUsage
                       \<lparr>TotalTokens := InputTokens tokenUsage + OutputTokens tokenUsage\<rparr>))
            | _ \<Rightarrow> Inl IndexOutOfRange)
         else Inr zero_usage)"

subsection \<open>The client\<close>

text \<open>Modelled from the spec: \<open>ModelMessage\<close>, \<open>LLMEndpoint\<close>, \<open>LLMToolCall\<close> and
  \<open>LLMResponse\<close> are declared outside the sources at hand; the fields are the ones
  the code reads and writes. The messages of a history are taken to be non-nil.\<close>

record ModelMessage =
  Role :: string
  Content :: string

record LLMEndpoint =
  Model :: string
  Provider :: string
  Key :: string

typedecl LLMTool

typedecl LLMToolCall

record LLMResponse =
  Content :: string
  ToolCalls :: "LLMToolCall list"
  TokenUsage :: LLMTokenUsage

text \<open>The three gauges \<open>SendQuery\<close> asks the meter for, by the name of the telemetry
  constant.\<close>

datatype gauge = LLMInputTokens | LLMInputTokensCacheReads | LLMOutputTokens

text \<open>
  The collaborators of one call: the telemetry context and the container. \<open>Int64Gauge\<close>
  is the meter's answer for a gauge, \<open>None\<close> for a nil \<open>err\<close> and otherwise the
  error's message. \<open>Stdout\<close> and \<open>Stderr\<close> are what reading the output streams of
  the container returns after \<open>WithExec\<close> of the given command line: an error's message
  or the text. \<open>Float64ToInt64\<close> is the platform's float64 to int64 conversion out of
  range.
\<close>

record World =
  TraceID :: string
  SpanID :: string
  Int64Gauge :: "gauge \<Rightarrow> string option"
  Stdout :: "string list \<Rightarrow> string + string"
  Stderr :: "string list \<Rightarrow> string + string"
  Float64ToInt64 :: "float64 \<Rightarrow> int64"

text \<open>What a call does to its collaborators, in order: the command it hands to the
  container, the reads of the two output streams with what they returned, and the gauge
  records with their attributes.\<close>

datatype event =
    WithExec "string list"
  | ReadStdout "string + string"
  | ReadStderr "string + string"
  | Record gauge int64 "(string \<times> string) list"

text \<open>\<open>SendQuery\<close> returns the response or the error, and the events of the call. The
  receiver \<open>c\<close> is given by its endpoint. The span opened for the call's output and
  closed on return carries no data of the result and is left out.\<close>

definition SendQuery ::
  "World \<Rightarrow> LLMEndpoint \<Rightarrow> ModelMessage list \<Rightarrow> LLMTool list
     \<Rightarrow> (error + LLMResponse) \<times> event list" where
  "SendQuery w c history tools =
     (let copilotModel = StripGitHubModelPrefix (Model c);
          attrs = [(''trace_id'', TraceID w), (''span_id'', SpanID w),
                   (''model'', copilotModel), (''provider'', Provider c)]
      in case Int64Gauge w LLMInputTokens of
           Some err \<Rightarrow>
             (Inl (Wrapped ''failed to get inputTokens gauge'' (External err)), [])
         | None \<Rightarrow>
      (case Int64Gauge w LLMInputTokensCacheReads of
           Some err \<Rightarrow>
             (Inl (Wrapped ''failed to get inputTokensCacheReads gauge'' (External err)), [])
         | None \<Rightarrow>
      (case Int64Gauge w LLMOutputTokens of
           Some err \<Rightarrow>
             (Inl (Wrapped ''failed to get outputTokens gauge'' (External err)), [])
         | None \<Rightarrow>
      if length history = 0 then (Inl EmptyHistory, [])
      else
      (case index history (length history - 1) of
           Inl panic \<Rightarrow> (Inl panic, [])
         | Inr prompt \<Rightarrow>
      if Role prompt \<noteq> ''user'' then (Inl LastNotUser, [])
      else
        let copilot = [''copilot'', ''--model'', copilotModel,
                       ''--prompt'', ModelMessage.Content prompt, ''--stream'', ''off'']
        in
      (case Stdout w copilot of
           Inl err \<Rightarrow> (Inl (External err), [WithExec copilot, ReadStdout (Inl err)])
         | Inr content \<Rightarrow>
      (case Stderr w copilot of
           Inl err \<Rightarrow>
             (Inl (External err),
              [WithExec copilot, ReadStdout (Inr content), ReadStderr (Inl err)])
         | Inr ghcpResponseMetadata \<Rightarrow>
      (case parseCopilotTokenMetadata (Float64ToInt64 w) ghcpResponseMetadata of
           Inl panic \<Rightarrow>
             (Inl panic,
              [WithExec copilot, ReadStdout (Inr content), ReadStderr (Inr ghcpResponseMetadata)])
         | Inr llmTokenUsage \<Rightarrow>
             (Inr \<lparr>Content = content, ToolCalls = [], TokenUsage = llmTokenUsage\<rparr>,
              [WithExec copilot, ReadStdout (Inr content), ReadStderr (Inr ghcpResponseMetadata),
               Record LLMInputTokens (InputTokens llmTokenUsage) attrs,
               Record LLMOutputTokens (OutputTokens llmTokenUsage) attrs,
               Record LLMInputTokensCacheReads (CachedTokenReads llmTokenUsage) attrs]))))))))"

text \<open>\<open>IsRetryable\<close>; a Go \<open>error\<close> argument is \<open>nil\<close> (\<open>None\<close>) or an error.\<close>

definition IsRetryable :: "LLMEndpoint \<Rightarrow> error option \<Rightarrow> bool" where
  "IsRetryable c err = False"

subsection \<open>Example inputs\<close>

text \<open>The diagnostic line of the specification's examples, with and without the cache
  write clause; a line with the suffix in upper case; a text with two usage lines; a
  line whose two counters are the largest float64 below \<open>2 ^ 63\<close>.\<close>

definition example_metadata :: string where
  "example_metadata =
     ''claude-sonnet-4.5    7.5k input, 52 output, 3.6k cache read, 3.7k cache write (Est. 1 Premium request)''"

definition example_no_write :: string where
  "example_no_write =
     ''claude-sonnet-4.5    7.5k input, 52 output, 3.6k cache read (Est. 1 Premium request)''"

definition example_upper :: string where
  "example_upper =
     ''claude-sonnet-4.5    7.5K input, 52 output, 3.6K cache read, 3.7K cache write (Est. 1 Premium request)''"

definition example_two_lines :: string where
  "example_two_lines =
     ''1 input, 2 output, 3 cache read; 4 input, 5 output, 6 cache read, 7 cache write''"



definition example_endpoint :: LLMEndpoint where
  "example_endpoint = \<lparr>Model = ''github-gpt-5'', Provider = ''github'', Key = ''token''\<rparr>"

text \<open>A world whose meter hands out every gauge and whose container prints an answer
  and the given diagnostic text; one whose meter fails; and one whose container fails.\<close>

definition example_world :: "string \<Rightarrow> World" where
  "example_world md =
     \<lparr>TraceID = ''4bf92f'', SpanID = ''00f067'',
      Int64Gauge = (\<lambda>g. None),
      Stdout = (\<lambda>args. Inr ''Hello''),
      Stderr = (\<lambda>args. Inr md),
      Float64ToInt64 = conv_amd64\<rparr>"

definition meter_down :: World where
  "meter_down =
     \<lparr>TraceID = ''4bf92f'', SpanID = ''00f067'',
      Int64Gauge = (\<lambda>g. Some ''meter unavailable''),
      Stdout = (\<lambda>args. Inr ''Hello''),
      Stderr = (\<lambda>args. Inr example_metadata),
      Float64ToInt64 = conv_amd64\<rparr>"

definition container_down :: World where
  "container_down =
     \<lparr>TraceID = ''4bf92f'', SpanID = ''00f067'',
      Int64Gauge = (\<lambda>g. None),
      Stdout = (\<lambda>args. Inl ''exit status 1''),
      Stderr = (\<lambda>args. Inl ''exit status 1''),
      Float64ToInt64 = conv_amd64\<rparr>"

section \<open>Properties\<close>

subsection \<open>The matcher and the language of an expression\<close>

lemma takeWhile_covers:
  "list_all P u \<Longrightarrow> length u \<le> length (takeWhile P (u @ s'))"
  by (induction u) auto

lemma take_in_takeWhile:
  "k \<le> length (takeWhile P s) \<Longrightarrow> list_all P (take k s)"
proof -
  assume k: "k \<le> length (takeWhile P s)"
  have "take k s = take k (takeWhile P s @ dropWhile P s)"
    by (simp only: takeWhile_dropWhile_id)
  also have "\<dots> = take k (takeWhile P s)"
    using k by (simp del: takeWhile_dropWhile_id)
  finally have "set (take k s) \<subseteq> set (takeWhile P s)"
    by (simp add: set_take_subset)
  then show ?thesis
    by (auto simp: list_all_iff dest: set_takeWhileD)
qed

lemma class_rests:
  "(\<lambda>k. drop k s) ` {k. lo \<le> k \<and> k \<le> length (takeWhile P s)}
     = {s'. \<exists>u. s = u @ s' \<and> lo \<le> length u \<and> list_all P u}"
proof (intro set_eqI iffI)
  fix s'
  assume "s' \<in> (\<lambda>k. drop k s) ` {k. lo \<le> k \<and> k \<le> length (takeWhile P s)}"
  then obtain k where k: "s' = drop k s" "lo \<le> k" "k \<le> length (takeWhile P s)"
    by auto
  have "length (takeWhile P s) \<le> length s"
    by (rule length_takeWhile_le)
  with k have "s = take k s @ s'" "lo \<le> length (take k s)" "list_all P (take k s)"
    by (simp_all add: take_in_takeWhile)
  then show "s' \<in> {s'. \<exists>u. s = u @ s' \<and> lo \<le> length u \<and> list_all P u}"
    by blast
next
  fix s'
  assume "s' \<in> {s'. \<exists>u. s = u @ s' \<and> lo \<le> length u \<and> list_all P u}"
  then obtain u where u: "s = u @ s'" "lo \<le> length u" "list_all P u"
    by auto
  then have "length u \<le> length (takeWhile P s)" "s' = drop (length u) s"
    by (simp_all add: takeWhile_covers)
  with u show "s' \<in> (\<lambda>k. drop k s) ` {k. lo \<le> k \<and> k \<le> length (takeWhile P s)}"
    by blast
qed

lemma set_rev_upt: "set (rev [lo ..< Suc n]) = {k. lo \<le> k \<and> k \<le> n}"
  by (auto simp del: upt_Suc)

lemma class_runs_rests:
  "fst ` set (map (\<lambda>k. (drop k s, c)) (rev [lo ..< Suc (length (takeWhile P s))]))
     = {s'. \<exists>u. s = u @ s' \<and> lo \<le> length u \<and> list_all P u}"
proof -
  have "fst ` set (map (\<lambda>k. (drop k s, c)) (rev [lo ..< Suc (length (takeWhile P s))]))
      = (\<lambda>k. drop k s) ` set (rev [lo ..< Suc (length (takeWhile P s))])"
    by (simp only: set_map image_image fst_conv)
  also have "\<dots> = (\<lambda>k. drop k s) ` {k. lo \<le> k \<and> k \<le> length (takeWhile P s)}"
    by (simp only: set_rev_upt)
  finally show ?thesis
    by (simp only: class_rests)
qed

lemma runs_rests:
  "fst ` set (runs r st) = {s'. \<exists>u \<in> lang r. fst st = u @ s'}"
proof (induction r arbitrary: st)
  case (Lit w)
  show ?case by (auto simp: prefix_def)
next
  case (Plus cl)
  have "fst ` set (runs (Plus cl) st)
      = {s'. \<exists>u. fst st = u @ s' \<and> 1 \<le> length u \<and> list_all (in_cls cl) u}"
    unfolding runs.simps by (rule class_runs_rests)
  also have "\<dots> = {s'. \<exists>u \<in> lang (Plus cl). fst st = u @ s'}"
    by (auto simp: Suc_le_eq)
  finally show ?case .
next
  case (Star cl)
  have "fst ` set (runs (Star cl) st)
      = {s'. \<exists>u. fst st = u @ s' \<and> 0 \<le> length u \<and> list_all (in_cls cl) u}"
    unfolding runs.simps by (rule class_runs_rests)
  also have "\<dots> = {s'. \<exists>u \<in> lang (Star cl). fst st = u @ s'}"
    by auto
  finally show ?case .
next
  case (Opt r)
  then show ?case by (auto simp: image_Un)
next
  case (Seq r1 r2)
  have "fst ` set (runs (Seq r1 r2) st)
      = (\<Union>st1 \<in> set (runs r1 st). fst ` set (runs r2 st1))"
    by auto
  also have "\<dots> = (\<Union>st1 \<in> set (runs r1 st). {s'. \<exists>v \<in> lang r2. fst st1 = v @ s'})"
    by (simp add: Seq.IH(2))
  also have "\<dots> = (\<Union>s1 \<in> fst ` set (runs r1 st). {s'. \<exists>v \<in> lang r2. s1 = v @ s'})"
    by auto
  also have "\<dots> = (\<Union>s1 \<in> {s1. \<exists>u \<in> lang r1. fst st = u @ s1}. {s'. \<exists>v \<in> lang r2. s1 = v @ s'})"
    by (simp only: Seq.IH(1))
  also have "\<dots> = {s'. \<exists>w \<in> lang (Seq r1 r2). fst st = w @ s'}"
    by auto (metis append.assoc)+
  finally show ?case .
next
  case (Group i r)
  have "fst ` set (runs (Group i r) st) = fst ` set (runs r st)"
    by (simp only: runs.simps set_map image_image fst_conv)
  with Group show ?case by simp
qed

lemma runs_empty_iff: "runs r st = [] \<longleftrightarrow> \<not> (\<exists>u \<in> lang r. prefix u (fst st))"
proof -
  have "runs r st = [] \<longleftrightarrow> fst ` set (runs r st) = {}"
    by simp
  also have "\<dots> \<longleftrightarrow> \<not> (\<exists>u \<in> lang r. prefix u (fst st))"
    unfolding runs_rests by (auto simp: prefix_def)
  finally show ?thesis .
qed

lemma match_here_None_iff: "match_here r s = None \<longleftrightarrow> \<not> (\<exists>u \<in> lang r. prefix u s)"
  using runs_empty_iff [of r "(s, Map.empty)"]
  by (auto simp: match_here_def split: list.splits)

lemma found_Nil: "found r [] \<longleftrightarrow> (\<exists>u \<in> lang r. prefix u [])"
  by (auto simp: found_def)

lemma found_Cons: "found r (x # s) \<longleftrightarrow> (\<exists>u \<in> lang r. prefix u (x # s)) \<or> found r s"
proof
  assume "found r (x # s)"
  then obtain pre u post where d: "x # s = pre @ u @ post" "u \<in> lang r"
    by (auto simp: found_def)
  show "(\<exists>u \<in> lang r. prefix u (x # s)) \<or> found r s"
  proof (cases pre)
    case Nil
    with d show ?thesis by (auto simp: prefix_def)
  next
    case (Cons y pre')
    with d have "s = pre' @ u @ post" by simp
    with d(2) show ?thesis by (auto simp: found_def)
  qed
next
  assume "(\<exists>u \<in> lang r. prefix u (x # s)) \<or> found r s"
  then show "found r (x # s)"
  proof
    assume "\<exists>u \<in> lang r. prefix u (x # s)"
    then obtain u post where "u \<in> lang r" "x # s = [] @ u @ post"
      by (auto simp: prefix_def)
    then show ?thesis unfolding found_def by blast
  next
    assume "found r s"
    then obtain pre u post where "s = pre @ u @ post" "u \<in> lang r"
      by (auto simp: found_def)
    then have "x # s = (x # pre) @ u @ post" "u \<in> lang r" by simp_all
    then show ?thesis unfolding found_def by blast
  qed
qed

lemma leftmost_None_iff: "leftmost r s = None \<longleftrightarrow> \<not> found r s"
proof (induction s)
  case Nil
  show ?case by (simp add: match_here_None_iff found_Nil)
next
  case (Cons x s)
  show ?case
  proof (cases "match_here r (x # s)")
    case None
    then show ?thesis
      using Cons match_here_None_iff [of r "x # s"] by (simp add: found_Cons)
  next
    case (Some m)
    then have "\<exists>u \<in> lang r. prefix u (x # s)"
      using match_here_None_iff [of r "x # s"] by auto
    with Some show ?thesis by (simp add: found_Cons)
  qed
qed

lemma runs_captures:
  "st' \<in> set (runs r st) \<Longrightarrow> i \<notin> groups r \<Longrightarrow> snd st' i = snd st i"
proof (induction r arbitrary: st st')
  case (Seq r1 r2)
  from Seq.prems(1) obtain st1 where st1: "st1 \<in> set (runs r1 st)" "st' \<in> set (runs r2 st1)"
    by auto
  from Seq.prems(2) have "i \<notin> groups r1" "i \<notin> groups r2"
    by simp_all
  with st1 Seq.IH show ?case
    by metis
qed (auto split: if_splits simp del: upt_Suc)

subsection \<open>Runs do not depend on the input they leave over\<close>

lemma runs_shorter: "st' \<in> set (runs r st) \<Longrightarrow> length (fst st') \<le> length (fst st)"
proof -
  assume "st' \<in> set (runs r st)"
  then have "fst st' \<in> fst ` set (runs r st)" by simp
  then obtain u where "fst st = u @ fst st'"
    unfolding runs_rests by blast
  then show ?thesis by simp
qed

lemma takeWhile_window:
  "min (length (takeWhile P (s @ z))) (length s) = length (takeWhile P s)"
  by (induction s) auto

lemma filter_rev_upt:
  "filter (\<lambda>k. k \<le> m) (rev [lo ..< Suc n]) = rev [lo ..< Suc (min n m)]"
proof (induction n)
  case 0
  show ?case by (cases "lo = 0") auto
next
  case (Suc n)
  show ?case
  proof (cases "Suc n \<le> m")
    case True
    then have "filter (\<lambda>k. k \<le> m) (rev [lo ..< Suc (Suc n)]) = rev [lo ..< Suc (Suc n)]"
      by (auto simp del: upt_Suc intro!: filter_True)
    with True show ?thesis by (simp add: min_def del: upt_Suc)
  next
    case False
    then have m: "min (Suc n) m = min n m" by (simp add: min_def)
    have "filter (\<lambda>k. k \<le> m) (rev [lo ..< Suc (Suc n)])
        = filter (\<lambda>k. k \<le> m) (rev [lo ..< Suc n])"
      using False by auto
    with Suc m show ?thesis by (simp del: upt_Suc)
  qed
qed

lemma class_window:
  "filter (within z) (map (\<lambda>k. (drop k (s @ z), c)) (rev [lo ..< Suc (length (takeWhile P (s @ z)))]))
     = map (lift z) (map (\<lambda>k. (drop k s, c)) (rev [lo ..< Suc (length (takeWhile P s))]))"
proof -
  have "filter (within z) (map (\<lambda>k. (drop k (s @ z), c)) (rev [lo ..< Suc (length (takeWhile P (s @ z)))]))
      = map (\<lambda>k. (drop k (s @ z), c)) (filter (\<lambda>k. k \<le> length s) (rev [lo ..< Suc (length (takeWhile P (s @ z)))]))"
    using length_takeWhile_le [of P "s @ z"]
    by (simp only: filter_map o_def within_def fst_conv length_drop length_append)
       (rule arg_cong [where f = "map _"], rule filter_cong, auto)
  also have "\<dots> = map (\<lambda>k. (drop k (s @ z), c)) (rev [lo ..< Suc (length (takeWhile P s))])"
    by (simp only: filter_rev_upt takeWhile_window)
  also have "\<dots> = map (lift z) (map (\<lambda>k. (drop k s, c)) (rev [lo ..< Suc (length (takeWhile P s))]))"
  proof -
    have "length (takeWhile P s) \<le> length s" by (rule length_takeWhile_le)
    then show ?thesis by (auto simp: lift_def simp del: upt_Suc)
  qed
  finally show ?thesis .
qed


lemma filter_concat_map:
  "filter P (concat (map f xs)) = concat (map (\<lambda>x. filter P (f x)) xs)"
  by (induction xs) auto

lemma runs_out_of_window:
  "\<not> within z st \<Longrightarrow> filter (within z) (runs r st) = []"
proof -
  assume out: "\<not> within z st"
  have "\<not> within z st'" if "st' \<in> set (runs r st)" for st'
    using runs_shorter [OF that] out by (simp add: within_def)
  then show ?thesis
    by (simp add: filter_empty_conv)
qed

lemma concat_map_filter_window:
  "concat (map (\<lambda>st. filter (within z) (runs r st)) xs)
     = concat (map (\<lambda>st. filter (within z) (runs r st)) (filter (within z) xs))"
  by (induction xs) (auto simp: runs_out_of_window)

lemma runs_window:
  "filter (within z) (runs r (s @ z, c)) = map (lift z) (runs r (s, c))"
proof (induction r arbitrary: s c)
  case (Lit w)
  show ?case
  proof (cases "prefix w s")
    case True
    then obtain t where "s = w @ t" by (auto simp: prefix_def)
    then show ?thesis by (simp add: within_def lift_def)
  next
    case False
    show ?thesis
    proof (cases "prefix w (s @ z)")
      case True
      with False have "length s < length w"
        by (metis linorder_not_less prefix_length_prefix prefixI)
      moreover from True have "length w \<le> length s + length z"
        using prefix_length_le by fastforce
      ultimately show ?thesis
        using True False by (simp add: within_def)
    next
      case nz: False
      with False show ?thesis by simp
    qed
  qed
next
  case (Plus cl)
  show ?case
    using class_window [of z s c 1 "in_cls cl"] by (simp del: upt_Suc)
next
  case (Star cl)
  show ?case
    using class_window [of z s c 0 "in_cls cl"] by (simp del: upt_Suc)
next
  case (Opt r)
  then show ?case by (simp add: within_def lift_def)
next
  case (Seq r1 r2)
  have "filter (within z) (runs (Seq r1 r2) (s @ z, c))
      = concat (map (\<lambda>st. filter (within z) (runs r2 st)) (runs r1 (s @ z, c)))"
    by (simp add: filter_concat_map)
  also have "\<dots> = concat (map (\<lambda>st. filter (within z) (runs r2 st))
                        (filter (within z) (runs r1 (s @ z, c))))"
    by (rule concat_map_filter_window)
  also have "\<dots> = concat (map (\<lambda>st. filter (within z) (runs r2 st))
                        (map (lift z) (runs r1 (s, c))))"
    by (simp only: Seq.IH(1))
  also have "\<dots> = concat (map (\<lambda>st. filter (within z) (runs r2 (fst st @ z, snd st)))
                        (runs r1 (s, c)))"
    by (simp add: o_def lift_def)
  also have "\<dots> = concat (map (\<lambda>st. map (lift z) (runs r2 (fst st, snd st))) (runs r1 (s, c)))"
    by (simp only: Seq.IH(2))
  also have "\<dots> = map (lift z) (runs (Seq r1 r2) (s, c))"
    by (simp add: map_concat o_def)
  finally show ?case .
next
  case (Group i r)
  let ?g = "\<lambda>t st'. (fst st', (snd st')(i \<mapsto> take (length t - length (fst st')) t))"
  have "filter (within z) (runs (Group i r) (s @ z, c))
      = map (?g (s @ z)) (filter (within z) (runs r (s @ z, c)))"
    by (simp add: filter_map o_def within_def [abs_def])
  also have "\<dots> = map (?g (s @ z)) (map (lift z) (runs r (s, c)))"
    by (simp only: Group.IH)
  also have "\<dots> = map (lift z) (map (?g s) (runs r (s, c)))"
  proof -
    have "?g (s @ z) (lift z st') = lift z (?g s st')" if "st' \<in> set (runs r (s, c))" for st'
      using runs_shorter [OF that] by (simp add: lift_def)
    then show ?thesis by simp
  qed
  also have "\<dots> = map (lift z) (runs (Group i r) (s, c))"
    by simp
  finally show ?case .
qed


subsection \<open>The words of the head pattern\<close>

text \<open>The words of the head pattern end in the literal \<open>cache read\<close> and have no
  other letter \<open>c\<close>.\<close>

lemma lang_cat_NilD: "w \<in> lang (cat []) \<Longrightarrow> w = []"
  by (simp add: cat_def)

lemma lang_cat_ConsE:
  assumes "w \<in> lang (cat (r # rs))"
  obtains u v where "w = u @ v" "u \<in> lang r" "v \<in> lang (cat rs)"
  using assms by (auto simp: cat_def)

lemma class_no_c:
  assumes "list_all (in_cls cl) w"
  shows "CHR ''c'' \<notin> set w"
proof
  assume "CHR ''c'' \<in> set w"
  with assms have "in_cls cl (CHR ''c'')"
    by (simp add: list_all_iff)
  then show False
    by (cases cl) simp_all
qed

lemma number_no_c: "w \<in> lang number \<Longrightarrow> CHR ''c'' \<notin> set w"
proof -
  assume "w \<in> lang number"
  then obtain ds fr where w: "w = ds @ fr" and ds: "list_all (in_cls Digit) ds"
    and fr: "fr = [] \<or> (\<exists>ds'. fr = ''.'' @ ds' \<and> list_all (in_cls Digit) ds')"
    unfolding number_def by auto
  from ds have "CHR ''c'' \<notin> set ds"
    by (rule class_no_c)
  moreover from fr have "CHR ''c'' \<notin> set fr"
    using class_no_c [of Digit] by auto
  ultimately show ?thesis
    using w by simp
qed

lemma counter_word:
  assumes "w \<in> lang (counter i lit)"
  shows "\<exists>y. w = y @ lit \<and> CHR ''c'' \<notin> set y"
proof -
  from assms have "w \<in> lang (cat [Group i number, Group (Suc i) (Opt (Lit ''k'')), Plus Space, Lit lit])"
    by (simp only: counter_def)
  then obtain n r1 where 1: "w = n @ r1" "n \<in> lang (Group i number)"
      "r1 \<in> lang (cat [Group (Suc i) (Opt (Lit ''k'')), Plus Space, Lit lit])"
    by (rule lang_cat_ConsE)
  from 1(3) obtain k r2 where 2: "r1 = k @ r2" "k \<in> lang (Group (Suc i) (Opt (Lit ''k'')))"
      "r2 \<in> lang (cat [Plus Space, Lit lit])"
    by (rule lang_cat_ConsE)
  from 2(3) obtain sp r3 where 3: "r2 = sp @ r3" "sp \<in> lang (Plus Space)"
      "r3 \<in> lang (cat [Lit lit])"
    by (rule lang_cat_ConsE)
  from 3(3) obtain l r4 where 4: "r3 = l @ r4" "l \<in> lang (Lit lit)" "r4 \<in> lang (cat [])"
    by (rule lang_cat_ConsE)
  from 4 have r3: "r3 = lit"
    by (simp add: lang_cat_NilD)
  from 1(2) have "CHR ''c'' \<notin> set n"
    by (simp add: number_no_c)
  moreover from 2(2) have "CHR ''c'' \<notin> set k"
    by auto
  moreover from 3(2) have "CHR ''c'' \<notin> set sp"
    using class_no_c [of Space sp] by simp
  ultimately have nc: "CHR ''c'' \<notin> set (n @ k @ sp)"
    by simp
  have eq: "w = (n @ k @ sp) @ lit"
    unfolding 1(1) 2(1) 3(1) r3 by (simp only: append_assoc)
  from conjI [OF eq nc] show ?thesis
    by (rule exI)
qed

lemma head_word:
  assumes "w \<in> lang usage_head"
  shows "\<exists>x. w = x @ ''cache read'' \<and> CHR ''c'' \<notin> set x"
proof -
  from assms have "w \<in> lang (cat [counter 1 ''input,'', Star Space, counter 3 ''output,'',
      Star Space, counter 5 ''cache read''])"
    by (simp only: usage_head_def)
  then obtain a r1 where 1: "w = a @ r1" "a \<in> lang (counter 1 ''input,'')"
      "r1 \<in> lang (cat [Star Space, counter 3 ''output,'', Star Space, counter 5 ''cache read''])"
    by (rule lang_cat_ConsE)
  from 1(3) obtain sp1 r2 where 2: "r1 = sp1 @ r2" "sp1 \<in> lang (Star Space)"
      "r2 \<in> lang (cat [counter 3 ''output,'', Star Space, counter 5 ''cache read''])"
    by (rule lang_cat_ConsE)
  from 2(3) obtain b r3 where 3: "r2 = b @ r3" "b \<in> lang (counter 3 ''output,'')"
      "r3 \<in> lang (cat [Star Space, counter 5 ''cache read''])"
    by (rule lang_cat_ConsE)
  from 3(3) obtain sp2 r4 where 4: "r3 = sp2 @ r4" "sp2 \<in> lang (Star Space)"
      "r4 \<in> lang (cat [counter 5 ''cache read''])"
    by (rule lang_cat_ConsE)
  from 4(3) obtain d r5 where 5: "r4 = d @ r5" "d \<in> lang (counter 5 ''cache read'')"
      "r5 \<in> lang (cat [])"
    by (rule lang_cat_ConsE)
  from 5 have r4: "r4 = d"
    by (simp add: lang_cat_NilD)
  from counter_word [OF 1(2)] obtain ya where ya: "a = ya @ ''input,''" "CHR ''c'' \<notin> set ya"
    by (elim exE conjE)
  from counter_word [OF 3(2)] obtain yb where yb: "b = yb @ ''output,''" "CHR ''c'' \<notin> set yb"
    by (elim exE conjE)
  from counter_word [OF 5(2)] obtain yd where yd: "d = yd @ ''cache read''" "CHR ''c'' \<notin> set yd"
    by (elim exE conjE)
  from 2(2) 4(2) have sp: "CHR ''c'' \<notin> set sp1" "CHR ''c'' \<notin> set sp2"
    using class_no_c [of Space sp1] class_no_c [of Space sp2] by simp_all
  let ?x = "ya @ ''input,'' @ sp1 @ yb @ ''output,'' @ sp2 @ yd"
  have eq: "w = ?x @ ''cache read''"
    unfolding 1(1) 2(1) 3(1) 4(1) r4 ya(1) yb(1) yd(1) by (simp only: append_assoc)
  from ya(2) yb(2) yd(2) sp have nc: "CHR ''c'' \<notin> set ?x"
    by simp
  from conjI [OF eq nc] show ?thesis
    by (rule exI)
qed

lemma head_no_overhang:
  assumes "u \<in> lang usage_head" and "w \<in> lang usage_head" and "w = d @ u @ ext"
  shows "ext = []"
proof (rule ccontr)
  assume ne: "ext \<noteq> []"
  from head_word [OF assms(1)] obtain y where y: "u = y @ ''cache read''"
    by (elim exE conjE)
  from head_word [OF assms(2)] obtain x where x: "w = x @ ''cache read''" "CHR ''c'' \<notin> set x"
    by (elim exE conjE)
  have "length w = length x + 10"
    by (simp add: x(1))
  moreover have "length w = length d + length y + 10 + length ext"
    by (simp add: assms(3) y)
  ultimately have "length x = length d + length y + length ext"
    by simp
  with ne have lt: "length d + length y < length x"
    by simp
  have "w ! (length d + length y) = (x @ ''cache read'') ! (length d + length y)"
    by (simp only: x(1))
  moreover have "w ! (length d + length y) = (d @ (y @ ''cache read'') @ ext) ! (length d + length y)"
    by (simp only: assms(3) y)
  ultimately have "x ! (length d + length y) = CHR ''c''"
    using lt by (simp add: nth_append)
  with lt x(2) show False
    by (metis nth_mem)
qed

text \<open>Every run of the cache write clause sets group 7 to a non-empty text.\<close>

lemma number_nonempty: "u \<in> lang number \<Longrightarrow> u \<noteq> []"
  by (auto simp: number_def)

lemma group_number_sets:
  assumes "st' \<in> set (runs (Group i number) st)"
  shows "\<exists>g. snd st' i = Some g \<and> g \<noteq> []"
proof -
  from assms obtain st1 where st1: "st1 \<in> set (runs number st)"
    and st': "st' = (fst st1, (snd st1)(i \<mapsto> take (length (fst st) - length (fst st1)) (fst st)))"
    by auto
  from st1 have "fst st1 \<in> fst ` set (runs number st)" by simp
  then obtain u where u: "u \<in> lang number" "fst st = u @ fst st1"
    unfolding runs_rests by blast
  then have "take (length (fst st) - length (fst st1)) (fst st) = u"
    by simp
  with st' u(1) show ?thesis
    by (simp add: number_nonempty)
qed

lemma runs_cat_ConsE:
  assumes "st' \<in> set (runs (cat (r # rs)) st)"
  obtains st1 where "st1 \<in> set (runs r st)" "st' \<in> set (runs (cat rs) st1)"
  using assms by (auto simp: cat_def)

lemma counter_sets:
  assumes "st' \<in> set (runs (counter i lit) st)"
  shows "\<exists>g. snd st' i = Some g \<and> g \<noteq> []"
proof -
  from assms have "st' \<in> set (runs (cat [Group i number, Group (Suc i) (Opt (Lit ''k'')),
      Plus Space, Lit lit]) st)"
    by (simp only: counter_def)
  then obtain st1 where 1: "st1 \<in> set (runs (Group i number) st)"
      "st' \<in> set (runs (cat [Group (Suc i) (Opt (Lit ''k'')), Plus Space, Lit lit]) st1)"
    by (rule runs_cat_ConsE)
  have "i \<notin> groups (cat [Group (Suc i) (Opt (Lit ''k'')), Plus Space, Lit lit])"
    by (simp add: cat_def)
  with 1(2) have "snd st' i = snd st1 i"
    by (rule runs_captures)
  with group_number_sets [OF 1(1)] show ?thesis
    by simp
qed

lemma clause_sets_7:
  assumes "st' \<in> set (runs cache_write_clause st)"
  shows "cap (snd st') 7 \<noteq> []"
proof -
  from assms have "st' \<in> set (runs (cat [Lit '','', Star Space, counter 7 ''cache write'']) st)"
    by (simp only: cache_write_clause_def)
  then obtain st1 where 1: "st' \<in> set (runs (cat [Star Space, counter 7 ''cache write'']) st1)"
    by (rule runs_cat_ConsE)
  then obtain st2 where 2: "st' \<in> set (runs (cat [counter 7 ''cache write'']) st2)"
    by (rule runs_cat_ConsE)
  then obtain st3 where 3: "st3 \<in> set (runs (counter 7 ''cache write'') st2)"
      "st' \<in> set (runs (cat []) st3)"
    by (rule runs_cat_ConsE)
  from 3(2) have "st' = st3"
    by (simp add: cat_def)
  with counter_sets [OF 3(1)] show ?thesis
    by (auto simp: cap_def)
qed

subsection \<open>The model name normaliser\<close>

lemma HasPrefix_iff: "HasPrefix s pre \<longleftrightarrow> prefix pre s"
proof
  assume "HasPrefix s pre"
  then have "s = pre @ drop (length pre) s"
    by (metis HasPrefix_def append_take_drop_id)
  then show "prefix pre s"
    by (metis prefixI)
next
  assume "prefix pre s"
  then show "HasPrefix s pre"
    by (auto simp: HasPrefix_def prefix_def)
qed

lemma StripLoop_spec: "StripLoop ps model = strip_first_prefix_spec ps model"
  by (induction ps)
     (simp_all add: strip_first_prefix_spec_def TrimPrefix_def HasPrefix_iff)

subsection \<open>The usage patterns and the parsers\<close>

lemma length_FindStringSubmatch:
  "FindStringSubmatch r s = [] \<or> length (FindStringSubmatch r s) = Suc (NumSubexp r)"
  by (auto simp: FindStringSubmatch_def split: option.splits simp del: upt_Suc)

lemma NumSubexp_usage: "NumSubexp usage_re = 8" "NumSubexp usage_re_old = 8"
  by (simp_all add: usage_re_def usage_re_old_def usage_head_def cache_write_clause_def
      counter_def cat_def number_def)

lemma groups_usage_head: "groups usage_head = {1, 2, 3, 4, 5, 6}"
  by (auto simp: usage_head_def counter_def cat_def number_def)

lemma groups_cache_write_clause: "groups cache_write_clause = {7, 8}"
  by (auto simp: cache_write_clause_def counter_def cat_def number_def)

lemma submatches_9:
  "whole # map (cap c) [1 ..< Suc 8]
     = [whole, cap c 1, cap c 2, cap c 3, cap c 4, cap c 5, cap c 6, cap c 7, cap c 8]"
  by (simp add: upt_rec eval_nat_numeral)

lemma FindStringSubmatch_usage_re:
  "FindStringSubmatch usage_re s =
     (case leftmost usage_re s of
        None \<Rightarrow> []
      | Some (whole, c) \<Rightarrow>
          [whole, cap c 1, cap c 2, cap c 3, cap c 4, cap c 5, cap c 6, cap c 7, cap c 8])"
  unfolding FindStringSubmatch_def NumSubexp_usage submatches_9 ..

lemma FindStringSubmatch_usage_re_old:
  "FindStringSubmatch usage_re_old s =
     (case leftmost usage_re_old s of
        None \<Rightarrow> []
      | Some (whole, c) \<Rightarrow>
          [whole, cap c 1, cap c 2, cap c 3, cap c 4, cap c 5, cap c 6, cap c 7, cap c 8])"
  unfolding FindStringSubmatch_def NumSubexp_usage submatches_9 ..

lemma FindStringSubmatch_usage_head:
  "FindStringSubmatch usage_head s =
     (case leftmost usage_head s of
        None \<Rightarrow> []
      | Some (whole, c) \<Rightarrow> [whole, cap c 1, cap c 2, cap c 3, cap c 4, cap c 5, cap c 6])"
proof -
  have "NumSubexp usage_head = 6"
    by (simp add: usage_head_def counter_def cat_def number_def)
  moreover have "whole # map (cap c) [1 ..< Suc 6]
      = [whole, cap c 1, cap c 2, cap c 3, cap c 4, cap c 5, cap c 6]" for whole c
    by (simp add: upt_rec eval_nat_numeral)
  ultimately show ?thesis
    by (simp only: FindStringSubmatch_def)
qed

lemma parse_no_match:
  "leftmost usage_re s = None \<Longrightarrow> parseCopilotTokenMetadata conv s = Inr zero_usage"
  by (simp add: parseCopilotTokenMetadata_def FindStringSubmatch_usage_re)

lemma parse_match:
  "leftmost usage_re s = Some (whole, c) \<Longrightarrow>
   parseCopilotTokenMetadata conv s =
     Inr \<lparr>InputTokens = parseTokenValue conv (cap c 1) (cap c 2),
          OutputTokens = parseTokenValue conv (cap c 3) (cap c 4),
          CachedTokenReads = parseTokenValue conv (cap c 5) (cap c 6),
          CachedTokenWrites = parseTokenValue conv (cap c 7) (cap c 8),
          TotalTokens = parseTokenValue conv (cap c 1) (cap c 2)
                          + parseTokenValue conv (cap c 3) (cap c 4)\<rparr>"
  by (simp add: parseCopilotTokenMetadata_def FindStringSubmatch_usage_re index_def zero_usage_def)

lemma old_counter_eq: "old_counter conv v m 0 = parseTokenValue conv v m"
  by (simp add: old_counter_def parseTokenValue_def)

lemma old_parse_no_match:
  "leftmost usage_re_old s = None \<Longrightarrow> parseLLMTokenUsage conv s = Inr zero_usage"
  by (simp add: parseLLMTokenUsage_def FindStringSubmatch_usage_re_old)

lemma old_parse_match:
  "leftmost usage_re_old s = Some (whole, c) \<Longrightarrow>
   parseLLMTokenUsage conv s =
     Inr \<lparr>InputTokens = parseTokenValue conv (cap c 1) (cap c 2),
          OutputTokens = parseTokenValue conv (cap c 3) (cap c 4),
          CachedTokenReads = parseTokenValue conv (cap c 5) (cap c 6),
          CachedTokenWrites = parseTokenValue conv (cap c 7) (cap c 8),
          TotalTokens = parseTokenValue conv (cap c 1) (cap c 2)
                          + parseTokenValue conv (cap c 3) (cap c 4)\<rparr>"
  by (simp add: parseLLMTokenUsage_def FindStringSubmatch_usage_re_old index_def zero_usage_def
      old_counter_eq)

text \<open>How the two patterns match at one position, in terms of their common head.\<close>

lemma match_here_usage_re:
  "match_here usage_re s =
     (case runs usage_head (s, Map.empty) of
        [] \<Rightarrow> None
      | st # _ \<Rightarrow>
          (case runs cache_write_clause st of
             [] \<Rightarrow> Some (take (length s - length (fst st)) s, snd st)
           | st' # _ \<Rightarrow> Some (take (length s - length (fst st')) s, snd st')))"
  by (simp add: match_here_def usage_re_def split: list.splits)

lemma match_here_usage_head:
  "match_here usage_head s =
     (case runs usage_head (s, Map.empty) of
        [] \<Rightarrow> None
      | st # _ \<Rightarrow> Some (take (length s - length (fst st)) s, snd st))"
  by (simp add: match_here_def)

lemma match_here_usage_re_old:
  "match_here usage_re_old s =
     (case concat (map (runs cache_write_clause) (runs usage_head (s, Map.empty))) of
        [] \<Rightarrow> None
      | st' # _ \<Rightarrow> Some (take (length s - length (fst st')) s, snd st'))"
  by (simp add: match_here_def usage_re_old_def)

lemma old_None: "match_here usage_re s = None \<Longrightarrow> match_here usage_re_old s = None"
  by (simp add: match_here_usage_re match_here_usage_re_old split: list.splits)

lemma head_no_group7:
  "st \<in> set (runs usage_head (s, Map.empty)) \<Longrightarrow> snd st 7 = None"
  using runs_captures [of st usage_head "(s, Map.empty)" 7]
  by (simp add: groups_usage_head)

lemma old_Some:
  assumes "match_here usage_re s = Some (w, c)" and "c 7 \<noteq> None"
  shows "match_here usage_re_old s = Some (w, c)"
proof (cases "runs usage_head (s, Map.empty)")
  case Nil
  with assms show ?thesis by (simp add: match_here_usage_re)
next
  case (Cons st sts)
  then have st7: "snd st 7 = None"
    using head_no_group7 [of st s] by simp
  show ?thesis
  proof (cases "runs cache_write_clause st")
    case Nil
    with Cons assms st7 show ?thesis by (auto simp: match_here_usage_re)
  next
    case (Cons st' sts')
    with \<open>runs usage_head (s, Map.empty) = st # sts\<close> assms show ?thesis
      by (simp add: match_here_usage_re match_here_usage_re_old)
  qed
qed

lemma leftmost_old_None: "leftmost usage_re s = None \<Longrightarrow> leftmost usage_re_old s = None"
  by (induction s) (auto simp: old_None split: option.splits)

lemma leftmost_old_Some:
  "leftmost usage_re s = Some (w, c) \<Longrightarrow> c 7 \<noteq> None \<Longrightarrow> leftmost usage_re_old s = Some (w, c)"
proof (induction s)
  case Nil
  then show ?case by (simp add: old_Some)
next
  case (Cons x s)
  show ?case
  proof (cases "match_here usage_re (x # s)")
    case None
    with Cons show ?thesis by (simp add: old_None)
  next
    case (Some m)
    with Cons.prems have "match_here usage_re (x # s) = Some (w, c)" by simp
    then have "match_here usage_re_old (x # s) = Some (w, c)"
      using Cons.prems(2) by (rule old_Some)
    then show ?thesis by simp
  qed
qed

lemma head_None_iff: "match_here usage_head s = None \<longleftrightarrow> match_here usage_re s = None"
  by (simp add: match_here_usage_re match_here_usage_head split: list.splits)

lemma head_Some:
  assumes "match_here usage_head s = Some (hw, hc)"
  shows "\<exists>w c. match_here usage_re s = Some (w, c) \<and> (\<forall>i. i \<notin> {7, 8} \<longrightarrow> c i = hc i)"
proof (cases "runs usage_head (s, Map.empty)")
  case Nil
  with assms show ?thesis by (simp add: match_here_usage_head)
next
  case (Cons st sts)
  with assms have hc: "hc = snd st" by (simp add: match_here_usage_head)
  show ?thesis
  proof (cases "runs cache_write_clause st")
    case Nil
    with Cons hc show ?thesis by (simp add: match_here_usage_re)
  next
    case (Cons st' sts')
    then have "\<forall>i. i \<notin> {7, 8} \<longrightarrow> snd st' i = snd st i"
      using runs_captures [of st' cache_write_clause st]
      by (simp add: groups_cache_write_clause)
    with Cons \<open>runs usage_head (s, Map.empty) = st # sts\<close> hc show ?thesis
      by (simp add: match_here_usage_re)
  qed
qed

lemma leftmost_head_Some:
  "leftmost usage_head s = Some (hw, hc) \<Longrightarrow>
   \<exists>w c. leftmost usage_re s = Some (w, c) \<and> (\<forall>i. i \<notin> {7, 8} \<longrightarrow> c i = hc i)"
proof (induction s)
  case Nil
  then show ?case using head_Some [of "[]" hw hc] by simp
next
  case (Cons x s)
  show ?case
  proof (cases "match_here usage_head (x # s)")
    case None
    then have "match_here usage_re (x # s) = None"
      by (simp add: head_None_iff)
    with None Cons show ?thesis by simp
  next
    case (Some m)
    with Cons.prems have "match_here usage_head (x # s) = Some (hw, hc)" by simp
    from head_Some [OF this] show ?thesis by auto
  qed
qed

subsection \<open>A match without the cache write clause\<close>

lemma head_runs_lifted:
  assumes "whole \<in> lang usage_head"
  shows "runs usage_head (whole @ z, c) = map (lift z) (runs usage_head (whole, c))"
proof -
  have "within z st" if "st \<in> set (runs usage_head (whole @ z, c))" for st
  proof -
    from that have "fst st \<in> fst ` set (runs usage_head (whole @ z, c))" by simp
    then obtain u where u: "u \<in> lang usage_head" "whole @ z = u @ fst st"
      unfolding runs_rests by auto
    from u(2) consider t where "whole = u @ t" "t @ z = fst st"
      | t where "whole @ t = u" "z = t @ fst st"
      by (auto simp: append_eq_append_conv2)
    then show ?thesis
    proof cases
      case 1
      then show ?thesis by (metis within_def length_append le_add2)
    next
      case 2
      then have "u = [] @ whole @ t" by simp
      with assms u(1) have "t = []" by (rule head_no_overhang)
      with 2 show ?thesis by (simp add: within_def)
    qed
  qed
  then have "filter (within z) (runs usage_head (whole @ z, c)) = runs usage_head (whole @ z, c)"
    by (simp add: filter_True)
  then show ?thesis
    by (simp only: runs_window)
qed

lemma match_here_prefix: "match_here r s = Some (w, c) \<Longrightarrow> \<exists>post. s = w @ post"
  by (auto simp: match_here_def split: list.splits) (metis append_take_drop_id)

lemma match_without_clause:
  assumes "match_here usage_re (whole @ post) = Some (whole, c)" and "cap c 7 = []"
  shows "whole \<in> lang usage_head"
    and "\<exists>sts. runs usage_head (whole @ post, Map.empty) = (post, c) # sts"
proof -
  from assms(1) obtain st sts where st: "runs usage_head (whole @ post, Map.empty) = st # sts"
    by (cases "runs usage_head (whole @ post, Map.empty)") (simp_all add: match_here_usage_re)
  have none: "runs cache_write_clause st = []"
  proof (rule ccontr)
    assume "runs cache_write_clause st \<noteq> []"
    then obtain st' sts' where st': "runs cache_write_clause st = st' # sts'"
      by (cases "runs cache_write_clause st") simp_all
    with st assms(1) have "c = snd st'"
      by (simp add: match_here_usage_re)
    moreover from st' have "cap (snd st') 7 \<noteq> []"
      using clause_sets_7 [of st' st] by simp
    ultimately show False
      using assms(2) by simp
  qed
  with st assms(1) have w: "take (length (whole @ post) - length (fst st)) (whole @ post) = whole"
    and c: "snd st = c"
    by (simp_all add: match_here_usage_re)
  from st have "fst st \<in> fst ` set (runs usage_head (whole @ post, Map.empty))"
    by simp
  then obtain u where u: "u \<in> lang usage_head" "whole @ post = u @ fst st"
    unfolding runs_rests by auto
  from u(2) have "take (length (whole @ post) - length (fst st)) (whole @ post) = u"
    by simp
  with w have uw: "u = whole" by simp
  with u(1) show "whole \<in> lang usage_head" by simp
  from u(2) uw have "fst st = post" by simp
  with c have "st = (post, c)" by (cases st) simp
  with st show "\<exists>sts. runs usage_head (whole @ post, Map.empty) = (post, c) # sts"
    by simp
qed

lemma insertion_here:
  assumes "match_here usage_re (whole @ post) = Some (whole, c)" and "cap c 7 = []"
    and "cl \<in> lang cache_write_clause"
  shows "\<exists>w' c'. match_here usage_re (whole @ cl @ post') = Some (w', c')
                  \<and> (\<forall>i. i \<notin> {7, 8} \<longrightarrow> c' i = c i)"
proof -
  note w = match_without_clause(1) [OF assms(1,2)]
  from match_without_clause(2) [OF assms(1,2)] obtain sts
    where "runs usage_head (whole @ post, Map.empty) = (post, c) # sts" ..
  then have "map (lift post) (runs usage_head (whole, Map.empty)) = (post, c) # sts"
    by (simp only: head_runs_lifted [OF w])
  then obtain st0 sts0 where st0: "runs usage_head (whole, Map.empty) = st0 # sts0"
    and l: "lift post st0 = (post, c)"
    by (cases "runs usage_head (whole, Map.empty)") auto
  from l have "fst st0 = []" "snd st0 = c"
    by (simp_all add: lift_def)
  then have st0': "st0 = ([], c)" by (cases st0) simp
  have first: "runs usage_head (whole @ cl @ post', Map.empty)
      = (cl @ post', c) # map (lift (cl @ post')) sts0"
    by (simp add: head_runs_lifted [OF w] st0 st0' lift_def)
  have "prefix cl (cl @ post')"
    by simp
  with assms(3) have "runs cache_write_clause (cl @ post', c) \<noteq> []"
    by (auto simp: runs_empty_iff intro!: bexI [of _ cl])
  then obtain st2 sts2 where st2: "runs cache_write_clause (cl @ post', c) = st2 # sts2"
    by (cases "runs cache_write_clause (cl @ post', c)") simp_all
  then have "\<forall>i. i \<notin> {7, 8} \<longrightarrow> snd st2 i = c i"
    using runs_captures [of st2 cache_write_clause "(cl @ post', c)"]
    by (simp add: groups_cache_write_clause)
  with first st2 show ?thesis
    by (simp add: match_here_usage_re)
qed

lemma before_unchanged:
  assumes "whole \<in> lang usage_head" and "match_here usage_re (d @ whole @ post) = None"
  shows "match_here usage_re (d @ whole @ z) = None"
proof (rule ccontr)
  assume "match_here usage_re (d @ whole @ z) \<noteq> None"
  then have "match_here usage_head (d @ whole @ z) \<noteq> None"
    by (simp add: head_None_iff)
  then obtain u where u: "u \<in> lang usage_head" "prefix u ((d @ whole) @ z)"
    by (auto simp: match_here_None_iff)
  from u(2) consider "prefix u (d @ whole)" | us where "u = (d @ whole) @ us"
    by (auto simp: prefix_append)
  then have "prefix u (d @ whole @ post)"
  proof cases
    case 1
    then have "prefix u ((d @ whole) @ post)" by (rule prefix_prefix)
    then show ?thesis by simp
  next
    case 2
    then have "u = d @ whole @ us" by simp
    with assms(1) u(1) have "us = []" by (rule head_no_overhang)
    with 2 show ?thesis by simp
  qed
  with u(1) have "match_here usage_head (d @ whole @ post) \<noteq> None"
    by (auto simp: match_here_None_iff)
  with assms(2) show False
    by (simp add: head_None_iff)
qed

lemma leftmost_skip:
  "(\<forall>i < length pre. match_here r (drop i (pre @ s)) = None)
     \<Longrightarrow> leftmost r (pre @ s) = leftmost r s"
proof (induction pre)
  case Nil
  show ?case by simp
next
  case (Cons x pre)
  from Cons.prems have 0: "match_here r (x # pre @ s) = None"
    by (metis append_Cons drop0 length_greater_0_conv list.distinct(1))
  have "\<forall>i < length pre. match_here r (drop i (pre @ s)) = None"
  proof (intro allI impI)
    fix i assume "i < length pre"
    then have "Suc i < length (x # pre)" by simp
    with Cons.prems have "match_here r (drop (Suc i) ((x # pre) @ s)) = None" by blast
    then show "match_here r (drop i (pre @ s)) = None" by simp
  qed
  with Cons.IH 0 show ?case by simp
qed

lemma leftmost_here: "match_here r s = Some m \<Longrightarrow> leftmost r s = Some m"
  by (cases s) simp_all

lemma match_offset_SomeD:
  "match_offset r s = Some n \<Longrightarrow>
   n \<le> length s \<and> (\<forall>i < n. match_here r (drop i s) = None) \<and> match_here r (drop n s) \<noteq> None"
proof (induction s arbitrary: n)
  case Nil
  then show ?case by (simp split: if_splits)
next
  case (Cons x s)
  show ?case
  proof (cases "match_here r (x # s) = None")
    case False
    with Cons.prems show ?thesis by simp
  next
    case True
    with Cons.prems obtain k where k: "match_offset r s = Some k" "n = Suc k"
      by auto
    from Cons.IH [OF k(1)] have ih: "k \<le> length s"
      "\<forall>i < k. match_here r (drop i s) = None" "match_here r (drop k s) \<noteq> None"
      by simp_all
    have "\<forall>i < Suc k. match_here r (drop i (x # s)) = None"
    proof (intro allI impI)
      fix i assume i: "i < Suc k"
      show "match_here r (drop i (x # s)) = None"
      proof (cases i)
        case 0
        with True show ?thesis by simp
      next
        case (Suc j)
        with i ih(2) show ?thesis by simp
      qed
    qed
    with ih(1,3) k(2) show ?thesis by simp
  qed
qed

lemma lang_by_runs: "([], c') \<in> set (runs r (w, c)) \<Longrightarrow> w \<in> lang r"
proof -
  assume "([], c') \<in> set (runs r (w, c))"
  then have "[] \<in> fst ` set (runs r (w, c))"
    by (metis fst_conv image_eqI)
  then show ?thesis
    unfolding runs_rests by simp
qed

text \<open>A cache write clause put right after a match without one leaves groups 1 to 6 as
  they are.\<close>

lemma insertion:
  assumes "match_offset usage_re t = Some n" and "FindStringSubmatch usage_re t ! 7 = []"
    and "cl \<in> lang cache_write_clause"
  shows "\<exists>w c w' c'. leftmost usage_re t = Some (w, c) \<and> cap c 7 = []
     \<and> FindStringSubmatch usage_re t ! 0 = w
     \<and> leftmost usage_re (take (n + length w) t @ cl @ post') = Some (w', c')
     \<and> (\<forall>i. i \<notin> {7, 8} \<longrightarrow> c' i = c i)"
proof -
  from match_offset_SomeD [OF assms(1)] have n: "n \<le> length t"
    and before: "\<forall>i < n. match_here usage_re (drop i t) = None"
    and here: "match_here usage_re (drop n t) \<noteq> None"
    by simp_all
  from here obtain w c where m: "match_here usage_re (drop n t) = Some (w, c)"
    by (cases "match_here usage_re (drop n t)") auto
  from match_here_prefix [OF m] obtain post where post: "drop n t = w @ post" ..
  define pre where "pre = take n t"
  from n have len: "length pre = n" by (simp add: pre_def)
  have t: "t = pre @ w @ post"
    unfolding pre_def post [symmetric] by simp
  from before len have "\<forall>i < length pre. match_here usage_re (drop i (pre @ w @ post)) = None"
    by (simp add: t [symmetric])
  then have "leftmost usage_re (pre @ w @ post) = leftmost usage_re (w @ post)"
    by (rule leftmost_skip)
  moreover from m post have mh: "match_here usage_re (w @ post) = Some (w, c)"
    by simp
  ultimately have lm: "leftmost usage_re t = Some (w, c)"
    by (simp add: t leftmost_here)
  with assms(2) have c7: "cap c 7 = []"
    by (simp add: FindStringSubmatch_usage_re)
  from lm have w0: "FindStringSubmatch usage_re t ! 0 = w"
    by (simp add: FindStringSubmatch_usage_re)
  note win = match_without_clause(1) [OF mh c7]
  have "\<forall>i < length pre. match_here usage_re (drop i (pre @ w @ cl @ post')) = None"
  proof (intro allI impI)
    fix i assume i: "i < length pre"
    with before len t have "match_here usage_re (drop i pre @ w @ post) = None"
      by (metis append_eq_conv_conj drop_append le_eq_less_or_eq diff_is_0_eq drop0 less_imp_le_nat)
    with win have "match_here usage_re (drop i pre @ w @ cl @ post') = None"
      by (rule before_unchanged)
    with i show "match_here usage_re (drop i (pre @ w @ cl @ post')) = None"
      by simp
  qed
  then have "leftmost usage_re (pre @ w @ cl @ post') = leftmost usage_re (w @ cl @ post')"
    by (rule leftmost_skip)
  moreover from insertion_here [OF mh c7 assms(3)] obtain w' c'
    where "match_here usage_re (w @ cl @ post') = Some (w', c')"
      "\<forall>i. i \<notin> {7, 8} \<longrightarrow> c' i = c i"
    by blast
  moreover have "take (n + length w) t = pre @ w"
    by (simp add: t len)
  ultimately show ?thesis
    using lm c7 w0 by (auto dest: leftmost_here)
qed

subsection \<open>Conversion to int64\<close>




lemma ParseFloat_Nil: "ParseFloat [] = None"
  by (simp add: ParseFloat_def all_digits_def)

lemma parseTokenValue_Nil: "parseTokenValue conv [] m = 0"
  by (simp add: parseTokenValue_def ParseFloat_Nil)

subsection \<open>The examples, evaluated\<close>

lemmas regex_eval = match_here_def usage_re_def usage_re_old_def usage_head_def
  cache_write_clause_def counter_def cat_def number_def cap_def

lemmas float_eval = parseTokenValue_def ParseFloat_def all_digits_def decimal_def digit_val_def
  round_f64_def ilog2_def bit_length.simps round_half_even_def ToLower_def Let_def

lemma submatch_example:
  "FindStringSubmatch usage_re example_metadata =
     [''7.5k input, 52 output, 3.6k cache read, 3.7k cache write'',
      ''7.5'', ''k'', ''52'', [], ''3.6'', ''k'', ''3.7'', ''k'']"
  unfolding FindStringSubmatch_usage_re example_metadata_def
  by (simp add: regex_eval)

lemma submatch_no_write:
  "FindStringSubmatch usage_re example_no_write =
     [''7.5k input, 52 output, 3.6k cache read'',
      ''7.5'', ''k'', ''52'', [], ''3.6'', ''k'', [], []]"
  unfolding FindStringSubmatch_usage_re example_no_write_def
  by (simp add: regex_eval)

lemma submatch_head_no_write:
  "FindStringSubmatch usage_head example_no_write =
     [''7.5k input, 52 output, 3.6k cache read'', ''7.5'', ''k'', ''52'', [], ''3.6'', ''k'']"
  unfolding FindStringSubmatch_def example_no_write_def
  by (simp add: regex_eval upt_rec)

lemma submatch_upper: "FindStringSubmatch usage_re example_upper = []"
  unfolding FindStringSubmatch_usage_re example_upper_def
  by (simp add: regex_eval)

lemma tokens_7_5k: "parseTokenValue conv ''7.5'' ''k'' = 7500"
  by (simp add: float_eval)

lemma tokens_52: "parseTokenValue conv ''52'' [] = 52"
  by (simp add: float_eval)

lemma tokens_3_6k: "parseTokenValue conv ''3.6'' ''k'' = 3600"
  by (simp add: float_eval)

lemma tokens_3_7k: "parseTokenValue conv ''3.7'' ''k'' = 3700"
  by (simp add: float_eval)

lemma tokens_7_5K: "parseTokenValue conv ''7.5'' ''K'' = 7500"
  by (simp add: float_eval)

lemma parse_example:
  "parseCopilotTokenMetadata conv example_metadata =
     Inr \<lparr>InputTokens = 7500, OutputTokens = 52, CachedTokenReads = 3600,
          CachedTokenWrites = 3700, TotalTokens = 7552\<rparr>"
  unfolding parseCopilotTokenMetadata_def submatch_example
  by (simp add: index_def zero_usage_def tokens_7_5k tokens_52 tokens_3_6k tokens_3_7k)

lemma parse_no_write:
  "parseCopilotTokenMetadata conv example_no_write =
     Inr \<lparr>InputTokens = 7500, OutputTokens = 52, CachedTokenReads = 3600,
          CachedTokenWrites = 0, TotalTokens = 7552\<rparr>"
  unfolding parseCopilotTokenMetadata_def submatch_no_write
  by (simp add: index_def zero_usage_def tokens_7_5k tokens_52 tokens_3_6k parseTokenValue_Nil)

lemma parse_upper: "parseCopilotTokenMetadata conv example_upper = Inr zero_usage"
  unfolding parseCopilotTokenMetadata_def submatch_upper
  by simp

lemma submatch_two_lines_new:
  "FindStringSubmatch usage_re example_two_lines =
     [''1 input, 2 output, 3 cache read'', ''1'', [], ''2'', [], ''3'', [], [], []]"
  unfolding FindStringSubmatch_usage_re example_two_lines_def
  by (simp add: regex_eval)

lemma submatch_two_lines_old:
  "FindStringSubmatch usage_re_old example_two_lines =
     [''4 input, 5 output, 6 cache read, 7 cache write'', ''4'', [], ''5'', [], ''6'', [], ''7'', []]"
  unfolding FindStringSubmatch_usage_re_old example_two_lines_def
  by (simp add: regex_eval)


lemma tokens_small:
  "parseTokenValue conv ''0'' [] = 0"
  "parseTokenValue conv ''1'' [] = 1"
  "parseTokenValue conv ''2'' [] = 2"
  "parseTokenValue conv ''3'' [] = 3"
  "parseTokenValue conv ''4'' [] = 4"
  "parseTokenValue conv ''5'' [] = 5"
  "parseTokenValue conv ''6'' [] = 6"
  "parseTokenValue conv ''7'' [] = 7"
  by (simp_all add: float_eval)


lemma parse_two_lines:
  "parseCopilotTokenMetadata conv example_two_lines =
     Inr \<lparr>InputTokens = 1, OutputTokens = 2, CachedTokenReads = 3,
          CachedTokenWrites = 0, TotalTokens = 3\<rparr>"
  unfolding parseCopilotTokenMetadata_def submatch_two_lines_new
  by (simp add: index_def zero_usage_def tokens_small parseTokenValue_Nil)

lemma old_parse_two_lines:
  "parseLLMTokenUsage conv example_two_lines =
     Inr \<lparr>InputTokens = 4, OutputTokens = 5, CachedTokenReads = 6,
          CachedTokenWrites = 7, TotalTokens = 9\<rparr>"
  unfolding parseLLMTokenUsage_def submatch_two_lines_old
  by (simp add: index_def zero_usage_def tokens_small old_counter_eq)


lemma not_found_plain: "\<not> found usage_re ''Total duration: 4.2s''"
proof -
  have "leftmost usage_re ''Total duration: 4.2s'' = None"
    by (simp add: regex_eval)
  then show ?thesis
    by (rule iffD1 [OF leftmost_None_iff])
qed

lemma found_old_two_lines: "found usage_re_old example_two_lines"
proof -
  have "leftmost usage_re_old example_two_lines \<noteq> None"
    unfolding example_two_lines_def by (simp add: regex_eval)
  then show ?thesis
    by (simp add: leftmost_None_iff)
qed

lemma offset_no_write: "match_offset usage_re example_no_write = Some 21"
  unfolding example_no_write_def by (simp add: regex_eval)

lemma example_clause: "'', 3.7k cache write'' \<in> lang cache_write_clause"
proof -
  have "runs cache_write_clause ('', 3.7k cache write'', Map.empty)
      = [([], [7 \<mapsto> ''3.7'', 8 \<mapsto> ''k''])]"
    by (simp add: regex_eval)
  then have "([], [7 \<mapsto> ''3.7'', 8 \<mapsto> ''k'']) \<in> set (runs cache_write_clause ('', 3.7k cache write'', Map.empty))"
    by simp
  then show ?thesis
    by (rule lang_by_runs)
qed

lemma example_insertion:
  "take (21 + length ''7.5k input, 52 output, 3.6k cache read'') example_no_write
     @ '', 3.7k cache write'' @ '' (Est. 1 Premium request)'' = example_metadata"
  by (simp add: example_no_write_def example_metadata_def)

lemma lang_alphabet: "w \<in> lang r \<Longrightarrow> set w \<subseteq> alphabet r"
proof (induction r arbitrary: w)
  case (Seq r1 r2)
  from Seq.prems obtain u v where "w = u @ v" "u \<in> lang r1" "v \<in> lang r2"
    by auto
  with Seq.IH show ?case
    by (simp add: le_supI1 le_supI2)
qed (auto simp: list_all_iff)

lemma no_upper_K: "CHR ''K'' \<notin> alphabet usage_re"
  by (simp add: usage_re_def usage_head_def cache_write_clause_def counter_def cat_def number_def)

lemma in_lang_example: "''7.5k input, 52 output, 3.6k cache read'' \<in> lang usage_re"
proof -
  have "[] \<in> fst ` set (runs usage_re (''7.5k input, 52 output, 3.6k cache read'', Map.empty))"
    by (simp add: regex_eval)
  then show ?thesis
    unfolding runs_rests by simp
qed







subsection \<open>The client\<close>

lemma last_index:
  "history \<noteq> [] \<Longrightarrow> index history (length history - Suc 0) = Inr (last history)"
  by (simp add: index_def last_conv_nth)

lemma parse_total: "\<exists>u. parseCopilotTokenMetadata conv s = Inr u"
proof (cases "leftmost usage_re s")
  case None
  then show ?thesis by (simp add: parse_no_match)
next
  case (Some m)
  then show ?thesis by (cases m) (simp add: parse_match)
qed

lemma parse_no_panic: "parseCopilotTokenMetadata conv s \<noteq> Inl e"
  using parse_total [of conv s] by auto

lemma SendQuery_reaches_parser:
  assumes "\<forall>g. Int64Gauge w g = None" and "history \<noteq> []" and "Role (last history) = ''user''"
    and "Stdout w [''copilot'', ''--model'', StripGitHubModelPrefix (Model c),
                   ''--prompt'', ModelMessage.Content (last history), ''--stream'', ''off'']
          = Inr out"
    and "Stderr w [''copilot'', ''--model'', StripGitHubModelPrefix (Model c),
                   ''--prompt'', ModelMessage.Content (last history), ''--stream'', ''off'']
          = Inr md"
    and "parseCopilotTokenMetadata (Float64ToInt64 w) md = Inr u"
  shows "fst (SendQuery w c history tools) = Inr \<lparr>Content = out, ToolCalls = [], TokenUsage = u\<rparr>"
  using assms by (simp add: SendQuery_def last_index Let_def)

section \<open>The claims\<close>

text \<open>
  Claim C1, as stated, fails: \<open>SendQuery\<close> asks the meter for its three gauges before
  it looks at the history, and returns the meter's error, wrapped, when one of them is
  refused. With an empty history and a failing meter the error is that one, not a
  validation error.
\<close>

theorem C1_counterexample:
  "fst (SendQuery meter_down example_endpoint [] [])
     = Inl (Wrapped ''failed to get inputTokens gauge'' (External ''meter unavailable''))
   \<and> \<not> is_validation_error
         (Wrapped ''failed to get inputTokens gauge'' (External ''meter unavailable''))"
  by (simp add: SendQuery_def meter_down_def is_validation_error_def)

text \<open>
  Claim C1, amended. For every history that is empty, or whose last message's role is not
  \<open>user\<close>, \<open>SendQuery\<close> returns an error and the call has no event at all: no
  command is handed to the container and neither output stream is read. When the meter
  refuses a gauge, the error is the meter's error wrapped with the message of the first
  gauge refused, in the order input tokens, cached reads, output tokens. When the meter
  hands out the three gauges, the error is the validation error: empty history, or last
  message not from the user. For a non-empty history ending in a \<open>user\<close> message no
  error returned is a validation error.
\<close>

theorem C1_validation_before_sandbox:
  "(history = [] \<or> Role (last history) \<noteq> ''user'' \<longrightarrow>
      (\<forall>err. Int64Gauge w LLMInputTokens = Some err \<longrightarrow>
         SendQuery w c history tools
           = (Inl (Wrapped ''failed to get inputTokens gauge'' (External err)), []))
      \<and> (\<forall>err. Int64Gauge w LLMInputTokens = None
               \<and> Int64Gauge w LLMInputTokensCacheReads = Some err \<longrightarrow>
         SendQuery w c history tools
           = (Inl (Wrapped ''failed to get inputTokensCacheReads gauge'' (External err)), []))
      \<and> (\<forall>err. Int64Gauge w LLMInputTokens = None
               \<and> Int64Gauge w LLMInputTokensCacheReads = None
               \<and> Int64Gauge w LLMOutputTokens = Some err \<longrightarrow>
         SendQuery w c history tools
           = (Inl (Wrapped ''failed to get outputTokens gauge'' (External err)), []))
      \<and> (Int64Gauge w LLMInputTokens = None
           \<and> Int64Gauge w LLMInputTokensCacheReads = None
           \<and> Int64Gauge w LLMOutputTokens = None \<longrightarrow>
         SendQuery w c history tools
           = (Inl (if history = [] then EmptyHistory else LastNotUser), [])
         \<and> is_validation_error (if history = [] then EmptyHistory else LastNotUser)))
   \<and> (history \<noteq> [] \<and> Role (last history) = ''user'' \<longrightarrow>
        (\<forall>e. fst (SendQuery w c history tools) = Inl e \<longrightarrow> \<not> is_validation_error e))"
proof (rule conjI; rule impI)
  assume bad: "history = [] \<or> Role (last history) \<noteq> ''user''"
  have v: "Int64Gauge w LLMInputTokens = None
           \<and> Int64Gauge w LLMInputTokensCacheReads = None
           \<and> Int64Gauge w LLMOutputTokens = None \<longrightarrow>
         SendQuery w c history tools
           = (Inl (if history = [] then EmptyHistory else LastNotUser), [])"
  proof (cases "history = []")
    case True
    then show ?thesis by (simp add: SendQuery_def Let_def)
  next
    case False
    with bad have "Role (last history) \<noteq> ''user''" by simp
    with False show ?thesis by (simp add: SendQuery_def Let_def last_index)
  qed
  have g1: "\<forall>err. Int64Gauge w LLMInputTokens = Some err \<longrightarrow>
         SendQuery w c history tools
           = (Inl (Wrapped ''failed to get inputTokens gauge'' (External err)), [])"
    by (simp add: SendQuery_def Let_def)
  have g2: "\<forall>err. Int64Gauge w LLMInputTokens = None
               \<and> Int64Gauge w LLMInputTokensCacheReads = Some err \<longrightarrow>
         SendQuery w c history tools
           = (Inl (Wrapped ''failed to get inputTokensCacheReads gauge'' (External err)), [])"
    by (simp add: SendQuery_def Let_def)
  have g3: "\<forall>err. Int64Gauge w LLMInputTokens = None
               \<and> Int64Gauge w LLMInputTokensCacheReads = None
               \<and> Int64Gauge w LLMOutputTokens = Some err \<longrightarrow>
         SendQuery w c history tools
           = (Inl (Wrapped ''failed to get outputTokens gauge'' (External err)), [])"
    by (simp add: SendQuery_def Let_def)
  have iv: "is_validation_error (if history = [] then EmptyHistory else LastNotUser)"
    by (simp add: is_validation_error_def)
  from g1 g2 g3 v iv
  show "(\<forall>err. Int64Gauge w LLMInputTokens = Some err \<longrightarrow>
         SendQuery w c history tools
           = (Inl (Wrapped ''failed to get inputTokens gauge'' (External err)), []))
      \<and> (\<forall>err. Int64Gauge w LLMInputTokens = None
               \<and> Int64Gauge w LLMInputTokensCacheReads = Some err \<longrightarrow>
         SendQuery w c history tools
           = (Inl (Wrapped ''failed to get inputTokensCacheReads gauge'' (External err)), []))
      \<and> (\<forall>err. Int64Gauge w LLMInputTokens = None
               \<and> Int64Gauge w LLMInputTokensCacheReads = None
               \<and> Int64Gauge w LLMOutputTokens = Some err \<longrightarrow>
         SendQuery w c history tools
           = (Inl (Wrapped ''failed to get outputTokens gauge'' (External err)), []))
      \<and> (Int64Gauge w LLMInputTokens = None
           \<and> Int64Gauge w LLMInputTokensCacheReads = None
           \<and> Int64Gauge w LLMOutputTokens = None \<longrightarrow>
         SendQuery w c history tools
           = (Inl (if history = [] then EmptyHistory else LastNotUser), [])
         \<and> is_validation_error (if history = [] then EmptyHistory else LastNotUser))"
    by blast
next
  assume ok: "history \<noteq> [] \<and> Role (last history) = ''user''"
  show "\<forall>e. fst (SendQuery w c history tools) = Inl e \<longrightarrow> \<not> is_validation_error e"
    using ok
    by (auto simp: SendQuery_def Let_def is_validation_error_def last_index parse_no_panic
        split: option.splits sum.splits)
qed

theorem C1_validation_before_sandbox_witness:
  "SendQuery (example_world example_metadata) example_endpoint [] [] = (Inl EmptyHistory, [])
   \<and> SendQuery (example_world example_metadata) example_endpoint
        [\<lparr>Role = ''user'', Content = ''hi''\<rparr>, \<lparr>Role = ''assistant'', Content = ''hello''\<rparr>] []
       = (Inl LastNotUser, [])
   \<and> is_validation_error EmptyHistory \<and> is_validation_error LastNotUser
   \<and> SendQuery meter_down example_endpoint
        [\<lparr>Role = ''user'', Content = ''hi''\<rparr>, \<lparr>Role = ''assistant'', Content = ''hello''\<rparr>] []
       = (Inl (Wrapped ''failed to get inputTokens gauge'' (External ''meter unavailable'')), [])
   \<and> fst (SendQuery container_down example_endpoint [\<lparr>Role = ''user'', Content = ''hi''\<rparr>] [])
       = Inl (External ''exit status 1'')
   \<and> \<not> is_validation_error (External ''exit status 1'')"
proof -
  have g: "Int64Gauge (example_world example_metadata) LLMInputTokens = None"
    "Int64Gauge (example_world example_metadata) LLMInputTokensCacheReads = None"
    "Int64Gauge (example_world example_metadata) LLMOutputTokens = None"
    "Int64Gauge meter_down LLMInputTokens = Some ''meter unavailable''"
    by (simp_all add: example_world_def meter_down_def)
  have l: "Role (last [\<lparr>Role = ''user'', Content = ''hi''\<rparr>, \<lparr>Role = ''assistant'', Content = ''hello''\<rparr>]) \<noteq> ''user''"
    "Role (last [\<lparr>Role = ''user'', Content = ''hi''\<rparr>]) = ''user''"
    by simp_all
  have d: "fst (SendQuery container_down example_endpoint [\<lparr>Role = ''user'', Content = ''hi''\<rparr>] [])
       = Inl (External ''exit status 1'')"
    by (simp add: SendQuery_def container_down_def index_def Let_def)
  from g l d
    C1_validation_before_sandbox [of "[]" "example_world example_metadata" example_endpoint "[]"]
    C1_validation_before_sandbox [of
      "[\<lparr>Role = ''user'', Content = ''hi''\<rparr>, \<lparr>Role = ''assistant'', Content = ''hello''\<rparr>]"
      "example_world example_metadata" example_endpoint "[]"]
    C1_validation_before_sandbox [of
      "[\<lparr>Role = ''user'', Content = ''hi''\<rparr>, \<lparr>Role = ''assistant'', Content = ''hello''\<rparr>]"
      meter_down example_endpoint "[]"]
    C1_validation_before_sandbox [of "[\<lparr>Role = ''user'', Content = ''hi''\<rparr>]"
      container_down example_endpoint "[]"]
  show ?thesis
    by (auto simp: is_validation_error_def)
qed

text \<open>
  Claim C2. For every history ending in a \<open>user\<close> message: when the call reads both
  output streams and both reads succeed, what was read is what the container's standard
  output and standard error return for the copilot command of the last message, and
  \<open>SendQuery\<close> returns a response whose content is exactly that standard output,
  whose tool calls are empty and whose usage is parsed from that standard error.
  Conversely, when the meter hands out the gauges and the container returns both
  streams, the call reads both and returns that response.
\<close>

theorem C2_content_is_stdout:
  "history \<noteq> [] \<and> Role (last history) = ''user'' \<longrightarrow>
     (ReadStdout (Inr out) \<in> set (snd (SendQuery w c history tools))
        \<and> ReadStderr (Inr md) \<in> set (snd (SendQuery w c history tools)) \<longrightarrow>
      Stdout w [''copilot'', ''--model'', StripGitHubModelPrefix (Model c),
                ''--prompt'', ModelMessage.Content (last history), ''--stream'', ''off'']
        = Inr out
      \<and> Stderr w [''copilot'', ''--model'', StripGitHubModelPrefix (Model c),
                ''--prompt'', ModelMessage.Content (last history), ''--stream'', ''off'']
        = Inr md
      \<and> (\<exists>u. parseCopilotTokenMetadata (Float64ToInt64 w) md = Inr u
             \<and> fst (SendQuery w c history tools)
                 = Inr \<lparr>Content = out, ToolCalls = [], TokenUsage = u\<rparr>))
   \<and> (Int64Gauge w LLMInputTokens = None
        \<and> Int64Gauge w LLMInputTokensCacheReads = None
        \<and> Int64Gauge w LLMOutputTokens = None
        \<and> Stdout w [''copilot'', ''--model'', StripGitHubModelPrefix (Model c),
                ''--prompt'', ModelMessage.Content (last history), ''--stream'', ''off'']
           = Inr out
        \<and> Stderr w [''copilot'', ''--model'', StripGitHubModelPrefix (Model c),
                ''--prompt'', ModelMessage.Content (last history), ''--stream'', ''off'']
           = Inr md \<longrightarrow>
      ReadStdout (Inr out) \<in> set (snd (SendQuery w c history tools))
      \<and> ReadStderr (Inr md) \<in> set (snd (SendQuery w c history tools))
      \<and> (\<exists>u. parseCopilotTokenMetadata (Float64ToInt64 w) md = Inr u
             \<and> fst (SendQuery w c history tools)
                 = Inr \<lparr>Content = out, ToolCalls = [], TokenUsage = u\<rparr>))"
proof (intro impI conjI; (elim conjE)?)
  let ?cmd = "[''copilot'', ''--model'', StripGitHubModelPrefix (Model c),
                ''--prompt'', ModelMessage.Content (last history), ''--stream'', ''off'']"
  assume h: "history \<noteq> []" "Role (last history) = ''user''"
  from parse_total obtain u where u: "parseCopilotTokenMetadata (Float64ToInt64 w) md = Inr u"
    by blast
  {
    assume r: "ReadStdout (Inr out) \<in> set (snd (SendQuery w c history tools))"
      "ReadStderr (Inr md) \<in> set (snd (SendQuery w c history tools))"
    from h r show "Stdout w ?cmd = Inr out"
      by (auto simp: SendQuery_def Let_def last_index parse_no_panic
          split: option.splits sum.splits if_splits)
    from h r show "Stderr w ?cmd = Inr md"
      by (auto simp: SendQuery_def Let_def last_index parse_no_panic
          split: option.splits sum.splits if_splits)
    from h r u show "\<exists>u. parseCopilotTokenMetadata (Float64ToInt64 w) md = Inr u
             \<and> fst (SendQuery w c history tools)
                 = Inr \<lparr>Content = out, ToolCalls = [], TokenUsage = u\<rparr>"
      by (auto simp: SendQuery_def Let_def last_index parse_no_panic
          split: option.splits sum.splits if_splits)
  }
  {
    assume g: "Int64Gauge w LLMInputTokens = None" "Int64Gauge w LLMInputTokensCacheReads = None"
      "Int64Gauge w LLMOutputTokens = None"
      and o: "Stdout w ?cmd = Inr out" "Stderr w ?cmd = Inr md"
    from h g o u show "ReadStdout (Inr out) \<in> set (snd (SendQuery w c history tools))"
      by (simp add: SendQuery_def Let_def last_index)
    from h g o u show "ReadStderr (Inr md) \<in> set (snd (SendQuery w c history tools))"
      by (simp add: SendQuery_def Let_def last_index)
    from h g o u show "\<exists>u. parseCopilotTokenMetadata (Float64ToInt64 w) md = Inr u
             \<and> fst (SendQuery w c history tools)
                 = Inr \<lparr>Content = out, ToolCalls = [], TokenUsage = u\<rparr>"
      by (simp add: SendQuery_def Let_def last_index)
  }
qed


theorem C2_content_is_stdout_witness:
  "[\<lparr>Role = ''user'', Content = ''hi''\<rparr>] \<noteq> []
   \<and> Role (last [\<lparr>Role = ''user'', Content = ''hi''\<rparr>]) = ''user''
   \<and> Int64Gauge (example_world example_metadata) LLMInputTokens = None
   \<and> Int64Gauge (example_world example_metadata) LLMInputTokensCacheReads = None
   \<and> Int64Gauge (example_world example_metadata) LLMOutputTokens = None
   \<and> Stdout (example_world example_metadata)
         [''copilot'', ''--model'', ''gpt-5'', ''--prompt'', ''hi'', ''--stream'', ''off'']
       = Inr ''Hello''
   \<and> Stderr (example_world example_metadata)
         [''copilot'', ''--model'', ''gpt-5'', ''--prompt'', ''hi'', ''--stream'', ''off'']
       = Inr example_metadata
   \<and> ReadStdout (Inr ''Hello'') \<in> set (snd (SendQuery (example_world example_metadata)
         example_endpoint [\<lparr>Role = ''user'', Content = ''hi''\<rparr>] []))
   \<and> ReadStderr (Inr example_metadata) \<in> set (snd (SendQuery (example_world example_metadata)
         example_endpoint [\<lparr>Role = ''user'', Content = ''hi''\<rparr>] []))
   \<and> fst (SendQuery (example_world example_metadata)
         example_endpoint [\<lparr>Role = ''user'', Content = ''hi''\<rparr>] [])
       = Inr \<lparr>Content = ''Hello'', ToolCalls = [],
              TokenUsage = \<lparr>InputTokens = 7500, OutputTokens = 52, CachedTokenReads = 3600,
                             CachedTokenWrites = 3700, TotalTokens = 7552\<rparr>\<rparr>"
proof -
  have m: "StripGitHubModelPrefix (Model example_endpoint) = ''gpt-5''"
    by (simp add: example_endpoint_def StripGitHubModelPrefix_def gitHubModelPrefixes_def
        HasPrefix_def TrimPrefix_def)
  have g: "Int64Gauge (example_world example_metadata) LLMInputTokens = None"
    "Int64Gauge (example_world example_metadata) LLMInputTokensCacheReads = None"
    "Int64Gauge (example_world example_metadata) LLMOutputTokens = None"
    "Stdout (example_world example_metadata)
         [''copilot'', ''--model'', ''gpt-5'', ''--prompt'', ''hi'', ''--stream'', ''off'']
       = Inr ''Hello''"
    "Stderr (example_world example_metadata)
         [''copilot'', ''--model'', ''gpt-5'', ''--prompt'', ''hi'', ''--stream'', ''off'']
       = Inr example_metadata"
    "Float64ToInt64 (example_world example_metadata) = conv_amd64"
    by (simp_all add: example_world_def)
  from C2_content_is_stdout [where history = "[\<lparr>Role = ''user'', Content = ''hi''\<rparr>]" and out = "''Hello''"
      and md = example_metadata and w = "example_world example_metadata"
      and c = example_endpoint and tools = "[]"] m g
  show ?thesis
    by (simp add: parse_example)
qed

text \<open>
  Claim C3. For every model identifier, \<open>StripGitHubModelPrefix\<close> returns what the
  specification's wording gives on the fixed list: whenever some listed prefix is a
  literal prefix of the identifier, the identifier is the first such prefix (in list
  order) followed by the result, and when none is, the result is the identifier itself.
  Matching is by byte equality, so case-sensitive. \<open>github-gpt-5\<close> gives \<open>gpt-5\<close>,
  \<open>claude-3\<close> is unchanged, \<open>gh-github-gpt-5\<close> gives \<open>github-gpt-5\<close> (stripped once),
  and \<open>GitHub-gpt-5\<close> is unchanged.
\<close>

theorem C3_strip_first_prefix:
  "StripGitHubModelPrefix model = strip_first_prefix_spec gitHubModelPrefixes model
   \<and> (find (\<lambda>p. prefix p model) gitHubModelPrefixes = None
        \<longrightarrow> StripGitHubModelPrefix model = model)
   \<and> (\<forall>p. find (\<lambda>p. prefix p model) gitHubModelPrefixes = Some p
        \<longrightarrow> model = p @ StripGitHubModelPrefix model)
   \<and> StripGitHubModelPrefix ''github-gpt-5'' = ''gpt-5''
   \<and> StripGitHubModelPrefix ''claude-3'' = ''claude-3''
   \<and> StripGitHubModelPrefix ''gh-github-gpt-5'' = ''github-gpt-5''
   \<and> StripGitHubModelPrefix ''GitHub-gpt-5'' = ''GitHub-gpt-5''"
proof -
  have eq: "StripGitHubModelPrefix m = strip_first_prefix_spec gitHubModelPrefixes m" for m
    by (simp add: StripGitHubModelPrefix_def StripLoop_spec)
  have none: "StripGitHubModelPrefix model = model"
    if "find (\<lambda>p. prefix p model) gitHubModelPrefixes = None"
    using that by (simp add: eq strip_first_prefix_spec_def)
  have some: "model = p @ StripGitHubModelPrefix model"
    if h: "find (\<lambda>p. prefix p model) gitHubModelPrefixes = Some p" for p
  proof -
    from h have "prefix p model"
      by (auto simp: find_Some_iff)
    then show ?thesis
      using h by (auto simp: eq strip_first_prefix_spec_def prefix_def)
  qed
  have e1: "StripGitHubModelPrefix ''github-gpt-5'' = ''gpt-5''"
    by (simp add: StripGitHubModelPrefix_def gitHubModelPrefixes_def HasPrefix_def TrimPrefix_def)
  have e2: "StripGitHubModelPrefix ''claude-3'' = ''claude-3''"
    by (simp add: StripGitHubModelPrefix_def gitHubModelPrefixes_def HasPrefix_def TrimPrefix_def)
  have e3: "StripGitHubModelPrefix ''gh-github-gpt-5'' = ''github-gpt-5''"
    by (simp add: StripGitHubModelPrefix_def gitHubModelPrefixes_def HasPrefix_def TrimPrefix_def)
  have e4: "StripGitHubModelPrefix ''GitHub-gpt-5'' = ''GitHub-gpt-5''"
    by (simp add: StripGitHubModelPrefix_def gitHubModelPrefixes_def HasPrefix_def TrimPrefix_def)
  from eq none some e1 e2 e3 e4 show ?thesis
    by blast
qed

theorem C3_strip_first_prefix_witness:
  "find (\<lambda>p. prefix p ''ghcp/github-gpt-5'') gitHubModelPrefixes = Some ''ghcp/''
   \<and> ''ghcp/github-gpt-5'' = ''ghcp/'' @ StripGitHubModelPrefix ''ghcp/github-gpt-5''
   \<and> find (\<lambda>p. prefix p ''o3-mini'') gitHubModelPrefixes = None
   \<and> StripGitHubModelPrefix ''o3-mini'' = ''o3-mini''"
proof -
  have a: "find (\<lambda>p. prefix p ''ghcp/github-gpt-5'') gitHubModelPrefixes = Some ''ghcp/''"
    by (simp add: gitHubModelPrefixes_def)
  have b: "find (\<lambda>p. prefix p ''o3-mini'') gitHubModelPrefixes = None"
    by (simp add: gitHubModelPrefixes_def)
  from a b C3_strip_first_prefix [of "''ghcp/github-gpt-5''"]
    C3_strip_first_prefix [of "''o3-mini''"]
  show ?thesis by blast
qed

text \<open>
  Claim C4. On the specification's example line the extractor returns 7500 input tokens,
  52 output tokens, 3600 cached reads, 3700 cached writes and 7552 total tokens,
  whatever the platform's out-of-range conversion.
\<close>

theorem C4_example_usage:
  "parseCopilotTokenMetadata conv example_metadata =
     Inr \<lparr>InputTokens = 7500, OutputTokens = 52, CachedTokenReads = 3600,
          CachedTokenWrites = 3700, TotalTokens = 7552\<rparr>
   \<and> example_metadata =
     ''claude-sonnet-4.5    7.5k input, 52 output, 3.6k cache read, 3.7k cache write (Est. 1 Premium request)''"
  by (simp add: parse_example) (simp add: example_metadata_def)

text \<open>
  Claim C5. Whenever the usage pattern matches, the input, output and cached-read
  counters are computed from the submatches of the pattern without the cache write
  clause (\<open>usage_head\<close>), the same way whether or not the clause follows; the total is
  the int64 sum of input and output; and when the clause took no part in the match the
  cached-write counter is zero. Moreover, when the leftmost match starts at offset \<open>n\<close>
  and has no clause, putting any cache write clause right after the matched text
  (whatever comes after it) leaves the input, output and cached-read counters as they
  are. The example line without the clause gives 7500, 52, 3600, 0 and 7552.
\<close>

theorem C5_clause_optional:
  "(FindStringSubmatch usage_head text \<noteq> [] \<longrightarrow>
      (\<exists>u. parseCopilotTokenMetadata conv text = Inr u
         \<and> InputTokens u = parseTokenValue conv (FindStringSubmatch usage_head text ! 1)
                              (FindStringSubmatch usage_head text ! 2)
         \<and> OutputTokens u = parseTokenValue conv (FindStringSubmatch usage_head text ! 3)
                              (FindStringSubmatch usage_head text ! 4)
         \<and> CachedTokenReads u = parseTokenValue conv (FindStringSubmatch usage_head text ! 5)
                              (FindStringSubmatch usage_head text ! 6)
         \<and> TotalTokens u = InputTokens u + OutputTokens u
         \<and> (FindStringSubmatch usage_re text ! 7 = [] \<longrightarrow> CachedTokenWrites u = 0)))
   \<and> (match_offset usage_re text = Some n \<and> FindStringSubmatch usage_re text ! 7 = []
        \<and> clause \<in> lang cache_write_clause \<longrightarrow>
      (\<exists>u u'. parseCopilotTokenMetadata conv text = Inr u
         \<and> CachedTokenWrites u = 0
         \<and> parseCopilotTokenMetadata conv
              (take (n + length (FindStringSubmatch usage_re text ! 0)) text @ clause @ rest)
             = Inr u'
         \<and> InputTokens u' = InputTokens u
         \<and> OutputTokens u' = OutputTokens u
         \<and> CachedTokenReads u' = CachedTokenReads u))
   \<and> parseCopilotTokenMetadata conv example_no_write =
       Inr \<lparr>InputTokens = 7500, OutputTokens = 52, CachedTokenReads = 3600,
            CachedTokenWrites = 0, TotalTokens = 7552\<rparr>"
proof (intro conjI impI)
  assume "FindStringSubmatch usage_head text \<noteq> []"
  then obtain hw hc where h: "leftmost usage_head text = Some (hw, hc)"
    by (auto simp: FindStringSubmatch_usage_head split: option.splits)
  from leftmost_head_Some [OF h] obtain w c
    where m: "leftmost usage_re text = Some (w, c)" and same: "\<forall>i. i \<notin> {7, 8} \<longrightarrow> c i = hc i"
    by blast
  from same have caps: "cap c (Suc 0) = cap hc (Suc 0)" "cap c 2 = cap hc 2" "cap c 3 = cap hc 3"
      "cap c 4 = cap hc 4" "cap c 5 = cap hc 5" "cap c 6 = cap hc 6"
    by (simp_all add: cap_def)
  from h have hs: "FindStringSubmatch usage_head text
      = [hw, cap hc 1, cap hc 2, cap hc 3, cap hc 4, cap hc 5, cap hc 6]"
    by (simp add: FindStringSubmatch_usage_head)
  from m have ms: "FindStringSubmatch usage_re text
      = [w, cap c 1, cap c 2, cap c 3, cap c 4, cap c 5, cap c 6, cap c 7, cap c 8]"
    by (simp add: FindStringSubmatch_usage_re)
  show "\<exists>u. parseCopilotTokenMetadata conv text = Inr u
         \<and> InputTokens u = parseTokenValue conv (FindStringSubmatch usage_head text ! 1)
                              (FindStringSubmatch usage_head text ! 2)
         \<and> OutputTokens u = parseTokenValue conv (FindStringSubmatch usage_head text ! 3)
                              (FindStringSubmatch usage_head text ! 4)
         \<and> CachedTokenReads u = parseTokenValue conv (FindStringSubmatch usage_head text ! 5)
                              (FindStringSubmatch usage_head text ! 6)
         \<and> TotalTokens u = InputTokens u + OutputTokens u
         \<and> (FindStringSubmatch usage_re text ! 7 = [] \<longrightarrow> CachedTokenWrites u = 0)"
    unfolding hs ms parse_match [OF m]
    by (simp add: caps parseTokenValue_Nil)
next
  assume a: "match_offset usage_re text = Some n \<and> FindStringSubmatch usage_re text ! 7 = []
        \<and> clause \<in> lang cache_write_clause"
  from a have a1: "match_offset usage_re text = Some n"
    and a2: "FindStringSubmatch usage_re text ! 7 = []"
    and a3: "clause \<in> lang cache_write_clause"
    by simp_all
  from insertion [OF a1 a2 a3, of rest] obtain w c w' c'
    where m: "leftmost usage_re text = Some (w, c)" and c7: "cap c 7 = []"
      and w0: "FindStringSubmatch usage_re text ! 0 = w"
      and m': "leftmost usage_re (take (n + length w) text @ clause @ rest) = Some (w', c')"
      and same: "\<forall>i. i \<notin> {7, 8} \<longrightarrow> c' i = c i"
    by blast
  from same have caps: "cap c' (Suc 0) = cap c (Suc 0)" "cap c' 2 = cap c 2" "cap c' 3 = cap c 3"
      "cap c' 4 = cap c 4" "cap c' 5 = cap c 5" "cap c' 6 = cap c 6"
    by (simp_all add: cap_def)
  show "\<exists>u u'. parseCopilotTokenMetadata conv text = Inr u
         \<and> CachedTokenWrites u = 0
         \<and> parseCopilotTokenMetadata conv
              (take (n + length (FindStringSubmatch usage_re text ! 0)) text @ clause @ rest)
             = Inr u'
         \<and> InputTokens u' = InputTokens u
         \<and> OutputTokens u' = OutputTokens u
         \<and> CachedTokenReads u' = CachedTokenReads u"
    unfolding w0 parse_match [OF m] parse_match [OF m']
    by (simp add: caps c7 parseTokenValue_Nil)
next
  show "parseCopilotTokenMetadata conv example_no_write =
       Inr \<lparr>InputTokens = 7500, OutputTokens = 52, CachedTokenReads = 3600,
            CachedTokenWrites = 0, TotalTokens = 7552\<rparr>"
    by (rule parse_no_write)
qed

theorem C5_clause_optional_witness:
  "FindStringSubmatch usage_head example_no_write \<noteq> []
   \<and> match_offset usage_re example_no_write = Some 21
   \<and> FindStringSubmatch usage_re example_no_write ! 7 = []
   \<and> '', 3.7k cache write'' \<in> lang cache_write_clause
   \<and> parseCopilotTokenMetadata conv_amd64 example_no_write =
       Inr \<lparr>InputTokens = parseTokenValue conv_amd64 ''7.5'' ''k'',
            OutputTokens = parseTokenValue conv_amd64 ''52'' [],
            CachedTokenReads = parseTokenValue conv_amd64 ''3.6'' ''k'',
            CachedTokenWrites = 0, TotalTokens = 7552\<rparr>
   \<and> take (21 + length ''7.5k input, 52 output, 3.6k cache read'') example_no_write
         @ '', 3.7k cache write'' @ '' (Est. 1 Premium request)'' = example_metadata
   \<and> parseCopilotTokenMetadata conv_amd64 example_metadata =
       Inr \<lparr>InputTokens = 7500, OutputTokens = 52, CachedTokenReads = 3600,
            CachedTokenWrites = 3700, TotalTokens = 7552\<rparr>"
  using C5_clause_optional [of example_no_write conv_amd64 21 "'', 3.7k cache write''"
      "'' (Est. 1 Premium request)''"] example_insertion
  by (simp add: submatch_head_no_write submatch_no_write offset_no_write example_clause
      tokens_7_5k tokens_52 tokens_3_6k parse_example)

text \<open>
  Claim C6. For every diagnostic text in which the usage pattern is found nowhere, the
  extractor returns the all-zero record and neither an error nor a panic; and a call of
  \<open>SendQuery\<close> whose gauges, history and two reads are in order, reading that text from
  standard error, returns a response carrying the all-zero usage.
\<close>

theorem C6_no_match_zero_usage:
  "\<not> found usage_re text \<Longrightarrow>
   parseCopilotTokenMetadata conv text = Inr zero_usage
   \<and> ((\<forall>g. Int64Gauge w g = None) \<and> history \<noteq> [] \<and> Role (last history) = ''user''
        \<and> Stdout w [''copilot'', ''--model'', StripGitHubModelPrefix (Model c),
                     ''--prompt'', ModelMessage.Content (last history), ''--stream'', ''off'']
            = Inr out
        \<and> Stderr w [''copilot'', ''--model'', StripGitHubModelPrefix (Model c),
                     ''--prompt'', ModelMessage.Content (last history), ''--stream'', ''off'']
            = Inr text
      \<longrightarrow> fst (SendQuery w c history tools)
            = Inr \<lparr>Content = out, ToolCalls = [], TokenUsage = zero_usage\<rparr>)"
proof -
  assume "\<not> found usage_re text"
  then have none: "leftmost usage_re text = None"
    by (simp add: leftmost_None_iff)
  then have zero: "parseCopilotTokenMetadata cv text = Inr zero_usage" for cv
    by (rule parse_no_match)
  show ?thesis
    using zero [of conv] zero [of "Float64ToInt64 w"]
    by (auto intro: SendQuery_reaches_parser)
qed

theorem C6_no_match_zero_usage_witness:
  "\<not> found usage_re ''Total duration: 4.2s''
   \<and> parseCopilotTokenMetadata conv_amd64 ''Total duration: 4.2s'' = Inr zero_usage
   \<and> fst (SendQuery (example_world ''Total duration: 4.2s'') example_endpoint
            [\<lparr>Role = ''user'', Content = ''hi''\<rparr>] [])
       = Inr \<lparr>Content = ''Hello'', ToolCalls = [], TokenUsage = zero_usage\<rparr>"
  using C6_no_match_zero_usage [OF not_found_plain, of conv_amd64
      "example_world ''Total duration: 4.2s''" "[\<lparr>Role = ''user'', Content = ''hi''\<rparr>]"
      example_endpoint "''Hello''" "[]"]
  by (simp add: not_found_plain example_world_def)




text \<open>
  Claim C8 fails on the code. \<open>parseTokenValue\<close> lowers the case of the suffix before
  comparing it with \<open>k\<close>, so \<open>7.5\<close> with \<open>K\<close> is 7500; but the pattern's groups
  \<open>(k?)\<close> accept the lower-case letter only, so the example line written with \<open>K\<close>
  does not match at all and every counter stays zero, where the same line with \<open>k\<close>
  gives 7500, 52, 3600, 3700 and 7552. No text the pattern matches contains the letter
  \<open>K\<close>, so an upper-case suffix is never captured.
\<close>

theorem C8_upper_case_suffix_not_matched:
  "parseCopilotTokenMetadata conv example_upper = Inr zero_usage
   \<and> parseCopilotTokenMetadata conv example_metadata =
       Inr \<lparr>InputTokens = 7500, OutputTokens = 52, CachedTokenReads = 3600,
            CachedTokenWrites = 3700, TotalTokens = 7552\<rparr>
   \<and> parseTokenValue conv ''7.5'' ''K'' = 7500
   \<and> (\<forall>u \<in> lang usage_re. CHR ''K'' \<notin> set u)"
  using lang_alphabet [of _ usage_re] no_upper_K
  by (auto simp: parse_upper parse_example tokens_7_5K)

theorem C8_upper_case_suffix_not_matched_witness:
  "''7.5k input, 52 output, 3.6k cache read'' \<in> lang usage_re
   \<and> CHR ''K'' \<notin> set ''7.5k input, 52 output, 3.6k cache read''
   \<and> parseCopilotTokenMetadata conv_amd64 example_upper = Inr zero_usage"
  using C8_upper_case_suffix_not_matched [of conv_amd64] in_lang_example
  by simp

text \<open>
  Claim C9. \<open>IsRetryable\<close> returns false for every error value, \<open>nil\<close> and
  execution failures included, whatever the client.
\<close>

theorem C9_IsRetryable_constant_false:
  "IsRetryable c err = False
   \<and> IsRetryable c None = False
   \<and> IsRetryable c (Some (External msg)) = False"
  by (simp add: IsRetryable_def)

text \<open>
  Claim C10, as stated, fails: a text can contain the full usage pattern, cache write
  clause included, and the two parsers still differ. In \<open>example_two_lines\<close> the
  first usage line has no clause and the second has one; the current parser takes the
  first line, the earlier one the second.
\<close>

theorem C10_counterexample:
  "found usage_re_old example_two_lines
   \<and> parseCopilotTokenMetadata conv_amd64 example_two_lines =
       Inr \<lparr>InputTokens = 1, OutputTokens = 2, CachedTokenReads = 3,
            CachedTokenWrites = 0, TotalTokens = 3\<rparr>
   \<and> parseLLMTokenUsage conv_amd64 example_two_lines =
       Inr \<lparr>InputTokens = 4, OutputTokens = 5, CachedTokenReads = 6,
            CachedTokenWrites = 7, TotalTokens = 9\<rparr>"
  by (simp add: found_old_two_lines parse_two_lines old_parse_two_lines)

text \<open>
  Claim C10, amended. The two parsers return equal results for every diagnostic text on
  which the current pattern does not match at all, and for every text on which its
  leftmost match includes the cache write clause (group 7 is not empty); so they differ
  only on texts whose leftmost match of the current pattern has no cache write clause.
\<close>

theorem C10_parsers_agree:
  assumes "FindStringSubmatch usage_re text = [] \<or> FindStringSubmatch usage_re text ! 7 \<noteq> []"
  shows "parseLLMTokenUsage conv text = parseCopilotTokenMetadata conv text"
proof (cases "leftmost usage_re text")
  case None
  then show ?thesis
    by (simp add: parse_no_match old_parse_no_match leftmost_old_None)
next
  case (Some m)
  obtain w c where m: "m = (w, c)" by (cases m)
  with Some assms have "cap c 7 \<noteq> []"
    by (simp add: FindStringSubmatch_usage_re)
  then have "c 7 \<noteq> None"
    by (auto simp: cap_def split: option.splits)
  with Some m have "leftmost usage_re_old text = Some (w, c)"
    by (simp add: leftmost_old_Some)
  with Some m show ?thesis
    by (simp add: parse_match old_parse_match)
qed

theorem C10_parsers_agree_witness:
  "FindStringSubmatch usage_re example_metadata ! 7 \<noteq> []
   \<and> parseLLMTokenUsage conv_amd64 example_metadata
       = parseCopilotTokenMetadata conv_amd64 example_metadata
   \<and> FindStringSubmatch usage_re ''Total duration: 4.2s'' = []
   \<and> parseLLMTokenUsage conv_amd64 ''Total duration: 4.2s''
       = parseCopilotTokenMetadata conv_amd64 ''Total duration: 4.2s''"
proof -
  have a: "FindStringSubmatch usage_re example_metadata ! 7 \<noteq> []"
    by (simp add: submatch_example)
  have b: "FindStringSubmatch usage_re ''Total duration: 4.2s'' = []"
    unfolding FindStringSubmatch_usage_re by (simp add: regex_eval)
  from a b C10_parsers_agree [of example_metadata conv_amd64]
    C10_parsers_agree [of "''Total duration: 4.2s''" conv_amd64]
  show ?thesis by blast
qed

end
